theory Spec2Isabelle
  imports Main "HOL-Library.FSet" "HOL-Library.Product_Lexorder"
begin

section \<open>Data model\<close>

text \<open>
  A cell is the Python tuple \<open>(i, j)\<close> of two unbounded integers. A Python \<open>set\<close> of
  cells is a finite set (\<open>fset\<close>); \<open>len\<close> is \<open>fcard\<close>. Where the source iterates over a
  set (whose order Python leaves to the hash table), the model iterates over
  \<open>sorted_list_of_fset\<close>; every such loop of the source but the one of
  \<open>make_safe_move\<close> only marks cells, and the result of marking does not depend on
  the order (\<open>fold_mark_mine_order\<close>, \<open>fold_mark_safe_order\<close> and
  \<open>fold_sweep_step_order\<close> below). \<open>make_safe_move\<close> takes the iteration order as an
  argument.
\<close>

type_synonym cell = "int \<times> int"

text \<open>\<open>class Sentence\<close>: \<open>self.cells\<close>, \<open>self.count\<close>. \<open>__eq__\<close> compares both fields,
  which is the equality of the record.\<close>

record Sentence =
  cells :: "cell fset"
  count :: int

text \<open>\<open>class MinesweeperAI\<close>. The list \<open>self.knowledge\<close> holds the Sentence objects in
  order; the model holds their current values in the same order.\<close>

record MinesweeperAI =
  height :: int
  width :: int
  moves_made :: "cell fset"
  mines :: "cell fset"
  safes :: "cell fset"
  knowledge :: "Sentence list"

datatype error = IndexError

section \<open>Sentence\<close>

definition known_mines :: "Sentence \<Rightarrow> cell fset" where
  "known_mines s = (if int (fcard (cells s)) = count s then cells s else {||})"

definition known_safes :: "Sentence \<Rightarrow> cell fset" where
  "known_safes s = (if count s = 0 then cells s else {||})"

definition Sentence_mark_mine :: "cell \<Rightarrow> Sentence \<Rightarrow> Sentence" where
  "Sentence_mark_mine c s =
     (if c |\<in>| cells s then s\<lparr>count := count s - 1, cells := cells s |-| {|c|}\<rparr> else s)"

definition Sentence_mark_safe :: "cell \<Rightarrow> Sentence \<Rightarrow> Sentence" where
  "Sentence_mark_safe c s =
     (if c |\<in>| cells s then s\<lparr>cells := cells s |-| {|c|}\<rparr> else s)"

section \<open>MinesweeperAI\<close>

definition init :: "int \<Rightarrow> int \<Rightarrow> MinesweeperAI" where
  "init h w = \<lparr>height = h, width = w, moves_made = {||}, mines = {||}, safes = {||},
                knowledge = []\<rparr>"

definition mark_mine :: "cell \<Rightarrow> MinesweeperAI \<Rightarrow> MinesweeperAI" where
  "mark_mine c st =
     st\<lparr>mines := finsert c (mines st), knowledge := map (Sentence_mark_mine c) (knowledge st)\<rparr>"

definition mark_safe :: "cell \<Rightarrow> MinesweeperAI \<Rightarrow> MinesweeperAI" where
  "mark_safe c st =
     st\<lparr>safes := finsert c (safes st), knowledge := map (Sentence_mark_safe c) (knowledge st)\<rparr>"

subsection \<open>update_mines_and_safes_in_KB\<close>

text \<open>
  One round of the inner loop \<open>for sentence in self.knowledge.copy()\<close> for a fixed
  cell: the flag is raised when the cell is in some sentence, and every sentence gets
  \<open>Sentence.mark_safe\<close>. The copy of the list shares the Sentence objects, so the
  sentences of \<open>self.knowledge\<close> themselves are updated.
\<close>

fun sweep_safe :: "cell \<Rightarrow> Sentence list \<Rightarrow> bool \<times> Sentence list" where
  "sweep_safe c [] = (False, [])"
| "sweep_safe c (s # ss) =
     (case sweep_safe c ss of (m, ss') \<Rightarrow> (c |\<in>| cells s \<or> m, Sentence_mark_safe c s # ss'))"

definition sweep_step :: "cell \<Rightarrow> bool \<times> Sentence list \<Rightarrow> bool \<times> Sentence list" where
  "sweep_step c acc = (case sweep_safe c (snd acc) of (m, kb) \<Rightarrow> (fst acc \<or> m, kb))"

text \<open>Both outer loops call \<open>sentence.mark_safe\<close>: the source does so for the cells of
  \<open>self.mines\<close> too (line 278).\<close>

definition update_mines_and_safes_in_KB :: "MinesweeperAI \<Rightarrow> bool \<times> MinesweeperAI" where
  "update_mines_and_safes_in_KB st =
     (let a1 = fold sweep_step (sorted_list_of_fset (safes st)) (False, knowledge st);
          a2 = fold sweep_step (sorted_list_of_fset (mines st)) a1
      in (fst a2, st\<lparr>knowledge := snd a2\<rparr>))"

subsection \<open>remove_empties_and_safes_and_Mines\<close>

text \<open>
  The loop \<open>for i_sentence in self.knowledge.copy()\<close> runs once for each object of the
  snapshot. The objects are shared with \<open>self.knowledge\<close>, so \<open>i_sentence\<close> is read at
  its current value, after the marks of earlier rounds. \<open>list.remove(x)\<close> deletes the
  first element equal to \<open>x\<close> (by \<open>__eq__\<close>), which may be an earlier object than
  \<open>i_sentence\<close>; it is never a later one, so the objects of the snapshot not yet
  visited are always the tail of \<open>self.knowledge\<close>, from index \<open>k\<close> on, where \<open>k\<close> is
  the position of \<open>i_sentence\<close>: a round that removes leaves \<open>k\<close> as it is, a round
  that does not moves it by one. The first argument is the rest of the snapshot (only
  its length matters), the second is \<open>k\<close>. At every call \<open>k\<close> plus the length of the
  rest of the snapshot is the length of \<open>self.knowledge\<close> (the proof of
  \<open>remove_loop_size\<close> below carries this), so \<open>k\<close> is in range at every read and
  \<open>list.remove\<close> finds its element.
\<close>

fun remove_loop :: "Sentence list \<Rightarrow> nat \<Rightarrow> bool \<Rightarrow> MinesweeperAI \<Rightarrow> bool \<times> MinesweeperAI" where
  "remove_loop [] k r st = (r, st)"
| "remove_loop (x # snap) k r st =
     (let s = knowledge st ! k in
      if fcard (cells s) = 0 then
        remove_loop snap k True (st\<lparr>knowledge := remove1 s (knowledge st)\<rparr>)
      else if known_mines s \<noteq> {||} then
        (let st1 = fold mark_mine (sorted_list_of_fset (known_mines s)) st in
         remove_loop snap k True (st1\<lparr>knowledge := remove1 (knowledge st1 ! k) (knowledge st1)\<rparr>))
      else if known_safes s \<noteq> {||} then
        (let st1 = fold mark_safe (sorted_list_of_fset (known_safes s)) st in
         remove_loop snap k True (st1\<lparr>knowledge := remove1 (knowledge st1 ! k) (knowledge st1)\<rparr>))
      else remove_loop snap (Suc k) r st)"

definition remove_empties_and_safes_and_Mines :: "MinesweeperAI \<Rightarrow> bool \<times> MinesweeperAI" where
  "remove_empties_and_safes_and_Mines st = remove_loop (knowledge st) 0 False st"

subsection \<open>The same loop on objects\<close>

text \<open>
  To check the reading of the loop above, the loop once more with the Sentence objects
  kept apart from the lists that hold them: \<open>store\<close> gives the current value of each
  object, \<open>refs\<close> is \<open>self.knowledge\<close> as a list of references. \<open>MinesweeperAI.mark_mine\<close>
  and \<open>mark_safe\<close> update the objects \<open>self.knowledge\<close> holds; \<open>list.remove(x)\<close> drops the
  first reference whose object equals \<open>x\<close> and raises \<open>ValueError\<close> (\<open>None\<close> here) when
  there is none; the loop runs over the references of the snapshot.
  \<open>remove_empties_on_objects\<close> below shows that this loop never raises and computes
  the values \<open>remove_empties_and_safes_and_Mines\<close> computes.
\<close>

record objects =
  store :: "nat \<Rightarrow> Sentence"
  refs :: "nat list"
  obj_mines :: "cell fset"
  obj_safes :: "cell fset"

definition obj_mark_mine :: "cell \<Rightarrow> objects \<Rightarrow> objects" where
  "obj_mark_mine c os =
     os\<lparr>obj_mines := finsert c (obj_mines os),
        store := (\<lambda>a. if a \<in> set (refs os) then Sentence_mark_mine c (store os a) else store os a)\<rparr>"

definition obj_mark_safe :: "cell \<Rightarrow> objects \<Rightarrow> objects" where
  "obj_mark_safe c os =
     os\<lparr>obj_safes := finsert c (obj_safes os),
        store := (\<lambda>a. if a \<in> set (refs os) then Sentence_mark_safe c (store os a) else store os a)\<rparr>"

fun list_remove :: "(nat \<Rightarrow> Sentence) \<Rightarrow> Sentence \<Rightarrow> nat list \<Rightarrow> nat list option" where
  "list_remove H v [] = None"
| "list_remove H v (a # as) =
     (if H a = v then Some as else map_option ((#) a) (list_remove H v as))"

fun obj_remove_loop :: "nat list \<Rightarrow> bool \<Rightarrow> objects \<Rightarrow> (bool \<times> objects) option" where
  "obj_remove_loop [] r os = Some (r, os)"
| "obj_remove_loop (x # snap) r os =
     (let s = store os x in
      if fcard (cells s) = 0 then
        (case list_remove (store os) s (refs os) of
           None \<Rightarrow> None
         | Some l \<Rightarrow> obj_remove_loop snap True (os\<lparr>refs := l\<rparr>))
      else if known_mines s \<noteq> {||} then
        (let os1 = fold obj_mark_mine (sorted_list_of_fset (known_mines s)) os in
         case list_remove (store os1) (store os1 x) (refs os1) of
           None \<Rightarrow> None
         | Some l \<Rightarrow> obj_remove_loop snap True (os1\<lparr>refs := l\<rparr>))
      else if known_safes s \<noteq> {||} then
        (let os1 = fold obj_mark_safe (sorted_list_of_fset (known_safes s)) os in
         case list_remove (store os1) (store os1 x) (refs os1) of
           None \<Rightarrow> None
         | Some l \<Rightarrow> obj_remove_loop snap True (os1\<lparr>refs := l\<rparr>))
      else obj_remove_loop snap r os)"

text \<open>The state of the player as values: each reference replaced by the value of its
  object.\<close>

definition values_of :: "MinesweeperAI \<Rightarrow> objects \<Rightarrow> MinesweeperAI" where
  "values_of st os =
     st\<lparr>mines := obj_mines os, safes := obj_safes os, knowledge := map (store os) (refs os)\<rparr>"

subsection \<open>The saturation loop\<close>

text \<open>\<open>while(self.remove_empties_and_safes_and_Mines() or
  self.update_mines_and_safes_in_KB()): pass\<close>; \<open>or\<close> does not call its second operand
  when the first returned \<open>True\<close>.\<close>

function saturate :: "MinesweeperAI \<Rightarrow> MinesweeperAI" where
  "saturate st =
     (case remove_empties_and_safes_and_Mines st of
        (True, st1) \<Rightarrow> saturate st1
      | (False, st1) \<Rightarrow>
          (case update_mines_and_safes_in_KB st1 of
             (True, st2) \<Rightarrow> saturate st2
           | (False, st2) \<Rightarrow> st2))"
  by pat_completeness auto

subsection \<open>The subset expansion of add_knowledge\<close>

text \<open>Python's \<open>xs[i]\<close>: a negative index counts from the end, an index out of range
  raises \<open>IndexError\<close>.\<close>

definition getitem :: "'a list \<Rightarrow> int \<Rightarrow> error + 'a" where
  "getitem xs i =
     (let n = int (length xs); k = (if i < 0 then n + i else i)
      in if 0 \<le> k \<and> k < n then Inr (xs ! nat k) else Inl IndexError)"

text \<open>
  The inner loop \<open>while j < j_max\<close> (lines 235 to 256). Its state is the list and the
  four integers \<open>i\<close>, \<open>j\<close>, \<open>i_max\<close>, \<open>j_max\<close>; it returns the list, \<open>i\<close>, \<open>j\<close> and
  \<open>i_max\<close>.
\<close>

function expand_inner ::
  "Sentence list \<Rightarrow> int \<Rightarrow> int \<Rightarrow> int \<Rightarrow> int \<Rightarrow> error + (Sentence list \<times> int \<times> int \<times> int)" where
  "expand_inner kb i j i_max j_max =
     (if j < j_max then
        if i = j then expand_inner kb i (j + 1) i_max j_max
        else
          (case getitem kb i of
             Inl e \<Rightarrow> Inl e
           | Inr si \<Rightarrow>
              (case getitem kb j of
                 Inl e \<Rightarrow> Inl e
               | Inr sj \<Rightarrow>
                  if si = sj then
                    expand_inner (remove1 sj kb) (if j < i then i - 1 else i) j
                      (i_max - 1) (j_max - 1)
                  else if cells sj |\<subset>| cells si then
                    expand_inner
                      (kb @ [\<lparr>cells = cells si |-| cells sj, count = count si - count sj\<rparr>])
                      i (j + 1) i_max j_max
                  else expand_inner kb i (j + 1) i_max j_max))
      else Inr (kb, i, j, i_max))"
  by pat_completeness auto
termination
  by (relation "measure (\<lambda>(kb, i, j, i_max, j_max). nat (j_max - j))") auto

text \<open>
  The outer loop \<open>while i < i_max\<close> (lines 233 to 257). \<open>j_max\<close> is set to the length of
  the list at every round; \<open>j\<close> is not set anew, it keeps the value the inner loop left.
\<close>

function expand_outer :: "Sentence list \<Rightarrow> int \<Rightarrow> int \<Rightarrow> int \<Rightarrow> error + Sentence list" where
  "expand_outer kb i j i_max =
     (if i < i_max then
        (case expand_inner kb i j i_max (int (length kb)) of
           Inl e \<Rightarrow> Inl e
         | Inr (kb', i', j', i_max') \<Rightarrow> expand_outer kb' (i' + 1) j' i_max')
      else Inr kb)"
  by pat_completeness auto
subsection \<open>add_knowledge\<close>

text \<open>\<open>range(a, b)\<close>.\<close>

definition py_range :: "int \<Rightarrow> int \<Rightarrow> int list" where
  "py_range a b = [a..b - 1]"

text \<open>The pairs \<open>(i, j)\<close> the two nested \<open>for\<close> loops of lines 208 and 209 visit, in
  order.\<close>

definition scan_cells :: "cell \<Rightarrow> cell list" where
  "scan_cells c =
     concat (map (\<lambda>i. map (\<lambda>j. (i, j)) (py_range (snd c - 1) (snd c + 2)))
                 (py_range (fst c - 1) (fst c + 2)))"

text \<open>The body of the loops (lines 210 to 218) on the pair \<open>(cell_neighbors,
  cell_count)\<close>.\<close>

definition scan_step :: "MinesweeperAI \<Rightarrow> cell \<Rightarrow> cell \<Rightarrow> cell fset \<times> int \<Rightarrow> cell fset \<times> int" where
  "scan_step st c ij acc =
     (if ij = c then acc
      else if 0 \<le> fst ij \<and> fst ij < height st \<and> 0 \<le> snd ij \<and> snd ij < width st then
        (if ij |\<notin>| mines st \<and> ij |\<notin>| moves_made st then finsert ij (fst acc) else fst acc,
         if ij |\<in>| mines st then snd acc - 1 else snd acc)
      else acc)"

text \<open>
  \<open>add_knowledge(cell, count)\<close>. After the two \<open>for\<close> loops the variables \<open>i\<close> and \<open>j\<close>
  hold the last values of their ranges, \<open>cell[0] + 1\<close> and \<open>cell[1] + 1\<close>; the source
  does not assign them again before \<open>while i < i_max\<close>, so the expansion starts
  there. The call of \<open>print_aiStatus\<close> at the end only prints.
\<close>

definition add_knowledge :: "cell \<Rightarrow> int \<Rightarrow> MinesweeperAI \<Rightarrow> error + MinesweeperAI" where
  "add_knowledge c n st =
     (let st1 = mark_safe c (st\<lparr>moves_made := finsert c (moves_made st)\<rparr>);
          nb = fold (scan_step st1 c) (scan_cells c) ({||}, n);
          st2 = st1\<lparr>knowledge := knowledge st1 @ [\<lparr>cells = fst nb, count = snd nb\<rparr>]\<rparr>;
          st3 = saturate st2
      in case expand_outer (knowledge st3) (fst c + 1) (snd c + 1) (int (length (knowledge st3))) of
           Inl e \<Rightarrow> Inl e
         | Inr kb \<Rightarrow> Inr (saturate (st3\<lparr>knowledge := kb\<rparr>)))"

subsection \<open>Move selection\<close>

text \<open>
  \<open>make_safe_move\<close>: the loop \<open>for safe_move in self.safes\<close> returns the first cell, in
  the set's iteration order, that is in neither \<open>moves_made\<close> nor \<open>mines\<close>. The order is
  the first argument. The method assigns no field; the model returns the state next
  to the result to say so.
\<close>

definition make_safe_move :: "cell list \<Rightarrow> MinesweeperAI \<Rightarrow> cell option \<times> MinesweeperAI" where
  "make_safe_move order st =
     (find (\<lambda>c. c |\<notin>| moves_made st \<and> c |\<notin>| mines st) order, st)"

definition board_cells :: "int \<Rightarrow> int \<Rightarrow> cell list" where
  "board_cells h w = concat (map (\<lambda>i. map (\<lambda>j. (i, j)) (py_range 0 w)) (py_range 0 h))"

definition make_random_move :: "MinesweeperAI \<Rightarrow> cell option" where
  "make_random_move st =
     find (\<lambda>c. c |\<notin>| moves_made st \<and> c |\<notin>| mines st) (board_cells (height st) (width st))"

text \<open>A cell of the board that is neither a move made nor a known mine, and the
  row-major order of cells: the two notions the claims about \<open>make_random_move\<close> use.\<close>

definition free_cell :: "MinesweeperAI \<Rightarrow> cell \<Rightarrow> bool" where
  "free_cell st c \<longleftrightarrow>
     0 \<le> fst c \<and> fst c < height st \<and> 0 \<le> snd c \<and> snd c < width st
     \<and> c |\<notin>| moves_made st \<and> c |\<notin>| mines st"

definition row_major_le :: "cell \<Rightarrow> cell \<Rightarrow> bool" where
  "row_major_le c c' \<longleftrightarrow> fst c < fst c' \<or> (fst c = fst c' \<and> snd c \<le> snd c')"

subsection \<open>The board, and the runs of the player\<close>

text \<open>
  \<open>Minesweeper.nearby_mines\<close>. The constructor of \<open>class Minesweeper\<close> sets
  \<open>board[i][j]\<close> to \<open>True\<close> exactly for the cells it adds to \<open>self.mines\<close>, so the
  board is given here by its height, its width and the set \<open>M\<close> of its mines. The two
  \<open>for\<close> loops visit the same cells as those of \<open>add_knowledge\<close>; \<open>nearby_step\<close> is
  their body (lines 75 to 81).
\<close>

definition nearby_step :: "int \<Rightarrow> int \<Rightarrow> cell fset \<Rightarrow> cell \<Rightarrow> cell \<Rightarrow> int \<Rightarrow> int" where
  "nearby_step h w M c ij n =
     (if ij = c then n
      else if 0 \<le> fst ij \<and> fst ij < h \<and> 0 \<le> snd ij \<and> snd ij < w then
        (if ij |\<in>| M then n + 1 else n)
      else n)"

definition nearby_mines :: "int \<Rightarrow> int \<Rightarrow> cell fset \<Rightarrow> cell \<Rightarrow> int" where
  "nearby_mines h w M c = fold (nearby_step h w M c) (scan_cells c) 0"

text \<open>
  The states a player reaches from \<open>MinesweeperAI(h, w)\<close> by calls of its three
  methods that change the state, each call returning normally, with any arguments.
\<close>

inductive reached :: "int \<Rightarrow> int \<Rightarrow> MinesweeperAI \<Rightarrow> bool" for h w where
  start: "reached h w (init h w)"
| add: "reached h w st \<Longrightarrow> add_knowledge c n st = Inr st' \<Longrightarrow> reached h w st'"
| mine: "reached h w st \<Longrightarrow> reached h w (mark_mine c st)"
| safe: "reached h w st \<Longrightarrow> reached h w (mark_safe c st)"

text \<open>
  The states a player reaches when every call tells the truth about one board with
  the mines \<open>M\<close>: \<open>add_knowledge(cell, count)\<close> is called for a cell of the board that
  is not a mine, with the count \<open>nearby_mines\<close> gives for it (what the driver loop
  does), \<open>mark_mine\<close> is called for a mine and \<open>mark_safe\<close> for a cell that is not a
  mine.
\<close>

inductive played :: "int \<Rightarrow> int \<Rightarrow> cell fset \<Rightarrow> MinesweeperAI \<Rightarrow> bool" for h w M where
  new: "played h w M (init h w)"
| observe: "played h w M st \<Longrightarrow> 0 \<le> fst c \<Longrightarrow> fst c < h \<Longrightarrow> 0 \<le> snd c \<Longrightarrow> snd c < w \<Longrightarrow>
     c |\<notin>| M \<Longrightarrow> add_knowledge c (nearby_mines h w M c) st = Inr st' \<Longrightarrow> played h w M st'"
| flag: "played h w M st \<Longrightarrow> c |\<in>| M \<Longrightarrow> played h w M (mark_mine c st)"
| clear: "played h w M st \<Longrightarrow> c |\<notin>| M \<Longrightarrow> played h w M (mark_safe c st)"

text \<open>
  What the proofs carry along a run. A sentence is true of the board when its count is
  the number of its cells that are mines. A state is sound for the board when its
  fields say only true things: the known mines are mines, the safe cells and the moves
  made are not, every sentence is true, and no sentence holds a known mine.
\<close>

definition mine_free :: "MinesweeperAI \<Rightarrow> bool" where
  "mine_free st \<longleftrightarrow> (\<forall>s\<in>set (knowledge st). cells s |\<inter>| mines st = {||})"

definition true_of :: "cell fset \<Rightarrow> Sentence \<Rightarrow> bool" where
  "true_of M s \<longleftrightarrow> count s = int (fcard (cells s |\<inter>| M))"

definition kb_ok :: "cell fset \<Rightarrow> cell fset \<Rightarrow> Sentence list \<Rightarrow> bool" where
  "kb_ok M ms kb \<longleftrightarrow> (\<forall>s\<in>set kb. true_of M s \<and> cells s |\<inter>| ms = {||})"

definition sound :: "int \<Rightarrow> int \<Rightarrow> cell fset \<Rightarrow> MinesweeperAI \<Rightarrow> bool" where
  "sound h w M st \<longleftrightarrow>
     height st = h \<and> width st = w \<and>
     mines st |\<subseteq>| M \<and> safes st |\<inter>| M = {||} \<and> moves_made st |\<inter>| M = {||}
     \<and> kb_ok M (mines st) (knowledge st)"

subsection \<open>The saturation as the specification has it\<close>






subsection \<open>Termination of the loops\<close>

text \<open>The size of a knowledge base: its length plus the number of cells of its
  sentences. No step of the saturation loop lets it grow, and a round that returns
  \<open>True\<close> makes it smaller.\<close>

definition kb_size :: "Sentence list \<Rightarrow> nat" where
  "kb_size kb = sum_list (map (\<lambda>s. Suc (fcard (cells s))) kb)"

lemma kb_size_simps [simp]:
  "kb_size [] = 0" "kb_size (s # kb) = Suc (fcard (cells s)) + kb_size kb"
  by (simp_all add: kb_size_def)

lemma fcard_Sentence_mark_safe: "fcard (cells (Sentence_mark_safe c s)) \<le> fcard (cells s)"
  by (simp add: Sentence_mark_safe_def fcard_mono)

lemma fcard_Sentence_mark_mine: "fcard (cells (Sentence_mark_mine c s)) \<le> fcard (cells s)"
  by (simp add: Sentence_mark_mine_def fcard_mono)

lemma fcard_Sentence_mark_safe_less:
  "c |\<in>| cells s \<Longrightarrow> fcard (cells (Sentence_mark_safe c s)) < fcard (cells s)"
  using fcard_fminus1_less[of c "cells s"] by (simp add: Sentence_mark_safe_def)

lemma kb_size_map_mark_safe: "kb_size (map (Sentence_mark_safe c) kb) \<le> kb_size kb"
  by (induction kb) (simp_all add: add_mono fcard_Sentence_mark_safe)

lemma kb_size_map_mark_mine: "kb_size (map (Sentence_mark_mine c) kb) \<le> kb_size kb"
  by (induction kb) (simp_all add: add_mono fcard_Sentence_mark_mine)

lemma kb_size_map_mark_safe_less:
  "\<exists>s\<in>set kb. c |\<in>| cells s \<Longrightarrow> kb_size (map (Sentence_mark_safe c) kb) < kb_size kb"
proof (induction kb)
  case Nil
  then show ?case by simp
next
  case (Cons s kb)
  show ?case
  proof (cases "c |\<in>| cells s")
    case True
    from fcard_Sentence_mark_safe_less[OF this] kb_size_map_mark_safe[of c kb]
    show ?thesis by simp
  next
    case False
    with Cons.prems have "\<exists>s\<in>set kb. c |\<in>| cells s" by simp
    from Cons.IH[OF this] fcard_Sentence_mark_safe[of c s] show ?thesis by simp
  qed
qed

lemma kb_size_remove1: "s \<in> set kb \<Longrightarrow> kb_size (remove1 s kb) < kb_size kb"
  by (induction kb) auto

lemma sweep_safe_eq:
  "sweep_safe c kb = ((\<exists>s\<in>set kb. c |\<in>| cells s), map (Sentence_mark_safe c) kb)"
  by (induction kb) auto

lemma knowledge_fold_mark_mine:
  "length (knowledge (fold mark_mine cs st)) = length (knowledge st)
   \<and> kb_size (knowledge (fold mark_mine cs st)) \<le> kb_size (knowledge st)"
proof (induction cs arbitrary: st)
  case Nil
  show ?case by simp
next
  case (Cons c cs)
  have "kb_size (knowledge (mark_mine c st)) \<le> kb_size (knowledge st)"
    by (simp add: mark_mine_def kb_size_map_mark_mine)
  moreover have "length (knowledge (mark_mine c st)) = length (knowledge st)"
    by (simp add: mark_mine_def)
  ultimately show ?case using Cons.IH[of "mark_mine c st"] by simp
qed

lemma knowledge_fold_mark_safe:
  "length (knowledge (fold mark_safe cs st)) = length (knowledge st)
   \<and> kb_size (knowledge (fold mark_safe cs st)) \<le> kb_size (knowledge st)"
proof (induction cs arbitrary: st)
  case Nil
  show ?case by simp
next
  case (Cons c cs)
  have "kb_size (knowledge (mark_safe c st)) \<le> kb_size (knowledge st)"
    by (simp add: mark_safe_def kb_size_map_mark_safe)
  moreover have "length (knowledge (mark_safe c st)) = length (knowledge st)"
    by (simp add: mark_safe_def)
  ultimately show ?case using Cons.IH[of "mark_safe c st"] by simp
qed

lemma length_remove1_nth:
  "k < length kb \<Longrightarrow> Suc (length (remove1 (kb ! k) kb)) = length kb"
  by (simp add: length_remove1)

lemma remove_loop_size:
  "remove_loop snap k r st = (r', st') \<Longrightarrow> k + length snap = length (knowledge st) \<Longrightarrow>
   kb_size (knowledge st') \<le> kb_size (knowledge st)
   \<and> (r' \<and> \<not> r \<longrightarrow> kb_size (knowledge st') < kb_size (knowledge st))"
proof (induction snap arbitrary: k r st)
  case Nil
  then show ?case by simp
next
  case (Cons x snap)
  let ?kb = "knowledge st"
  let ?s = "?kb ! k"
  from Cons.prems(2) have k: "k < length ?kb" by simp
  show ?case
  proof (cases "fcard (cells ?s) = 0")
    case True
    let ?st1 = "st\<lparr>knowledge := remove1 ?s ?kb\<rparr>"
    from Cons.prems(1) True have run: "remove_loop snap k True ?st1 = (r', st')" by simp
    from length_remove1_nth[OF k] Cons.prems(2)
    have len: "k + length snap = length (knowledge ?st1)" by simp
    from kb_size_remove1[of ?s ?kb] k
    have "kb_size (knowledge ?st1) < kb_size ?kb" by simp
    with Cons.IH[OF run len] show ?thesis by simp
  next
    case ne: False
    show ?thesis
    proof (cases "known_mines ?s \<noteq> {||}")
      case True
      define st1 where "st1 = fold mark_mine (sorted_list_of_fset (known_mines ?s)) st"
      let ?st2 = "st1\<lparr>knowledge := remove1 (knowledge st1 ! k) (knowledge st1)\<rparr>"
      from Cons.prems(1) ne True have run: "remove_loop snap k True ?st2 = (r', st')"
        by (simp add: st1_def Let_def)
      from knowledge_fold_mark_mine[of "sorted_list_of_fset (known_mines ?s)" st]
      have l1: "length (knowledge st1) = length ?kb"
        and s1: "kb_size (knowledge st1) \<le> kb_size ?kb" by (simp_all add: st1_def)
      from k l1 have k1: "k < length (knowledge st1)" by simp
      from length_remove1_nth[OF k1] l1 Cons.prems(2)
      have len: "k + length snap = length (knowledge ?st2)" by simp
      from kb_size_remove1[of "knowledge st1 ! k" "knowledge st1"] k1
      have "kb_size (knowledge ?st2) < kb_size (knowledge st1)" by simp
      with s1 Cons.IH[OF run len] show ?thesis by simp
    next
      case nm: False
      show ?thesis
      proof (cases "known_safes ?s \<noteq> {||}")
        case True
        define st1 where "st1 = fold mark_safe (sorted_list_of_fset (known_safes ?s)) st"
        let ?st2 = "st1\<lparr>knowledge := remove1 (knowledge st1 ! k) (knowledge st1)\<rparr>"
        from Cons.prems(1) ne nm True have run: "remove_loop snap k True ?st2 = (r', st')"
          by (simp add: st1_def Let_def)
        from knowledge_fold_mark_safe[of "sorted_list_of_fset (known_safes ?s)" st]
        have l1: "length (knowledge st1) = length ?kb"
          and s1: "kb_size (knowledge st1) \<le> kb_size ?kb" by (simp_all add: st1_def)
        from k l1 have k1: "k < length (knowledge st1)" by simp
        from length_remove1_nth[OF k1] l1 Cons.prems(2)
        have len: "k + length snap = length (knowledge ?st2)" by simp
        from kb_size_remove1[of "knowledge st1 ! k" "knowledge st1"] k1
        have "kb_size (knowledge ?st2) < kb_size (knowledge st1)" by simp
        with s1 Cons.IH[OF run len] show ?thesis by simp
      next
        case False
        with Cons.prems(1) ne nm have run: "remove_loop snap (Suc k) r st = (r', st')"
          by (simp add: Let_def)
        from Cons.prems(2) have "Suc k + length snap = length ?kb" by simp
        from Cons.IH[OF run this] show ?thesis .
      qed
    qed
  qed
qed

lemma fold_sweep_step_size:
  "fold sweep_step cs (m, kb) = (m', kb') \<Longrightarrow>
   kb_size kb' \<le> kb_size kb \<and> (m' \<and> \<not> m \<longrightarrow> kb_size kb' < kb_size kb)"
proof (induction cs arbitrary: m kb)
  case Nil
  then show ?case by simp
next
  case (Cons c cs)
  let ?m1 = "m \<or> (\<exists>s\<in>set kb. c |\<in>| cells s)"
  let ?kb1 = "map (Sentence_mark_safe c) kb"
  have step: "sweep_step c (m, kb) = (?m1, ?kb1)"
    by (simp add: sweep_step_def sweep_safe_eq)
  with Cons.prems have "fold sweep_step cs (?m1, ?kb1) = (m', kb')" by simp
  from Cons.IH[OF this]
  have ih: "kb_size kb' \<le> kb_size ?kb1" and ih2: "m' \<and> \<not> ?m1 \<longrightarrow> kb_size kb' < kb_size ?kb1"
    by simp_all
  have le: "kb_size ?kb1 \<le> kb_size kb" by (rule kb_size_map_mark_safe)
  show ?case
  proof (cases "\<exists>s\<in>set kb. c |\<in>| cells s")
    case True
    from kb_size_map_mark_safe_less[OF this] ih show ?thesis by simp
  next
    case False
    with ih ih2 le show ?thesis by auto
  qed
qed


lemma remove_empties_size:
  "remove_empties_and_safes_and_Mines st = (r, st') \<Longrightarrow>
   kb_size (knowledge st') \<le> kb_size (knowledge st)
   \<and> (r \<longrightarrow> kb_size (knowledge st') < kb_size (knowledge st))"
  using remove_loop_size[of "knowledge st" 0 False st r st']
  by (simp add: remove_empties_and_safes_and_Mines_def)

lemma update_size:
  "update_mines_and_safes_in_KB st = (True, st') \<Longrightarrow>
   kb_size (knowledge st') < kb_size (knowledge st)"
proof -
  assume a: "update_mines_and_safes_in_KB st = (True, st')"
  obtain m1 kb1 where f1: "fold sweep_step (sorted_list_of_fset (safes st)) (False, knowledge st) = (m1, kb1)"
    by (cases "fold sweep_step (sorted_list_of_fset (safes st)) (False, knowledge st)")
  obtain m2 kb2 where f2: "fold sweep_step (sorted_list_of_fset (mines st)) (m1, kb1) = (m2, kb2)"
    by (cases "fold sweep_step (sorted_list_of_fset (mines st)) (m1, kb1)")
  from a f1 f2 have m2: "m2" and st': "knowledge st' = kb2"
    by (auto simp: update_mines_and_safes_in_KB_def Let_def)
  from fold_sweep_step_size[OF f1] fold_sweep_step_size[OF f2] m2
  show ?thesis unfolding st' by (cases m1) auto
qed

text \<open>The saturation loop ends.\<close>

termination saturate
  apply (relation "measure (\<lambda>st. kb_size (knowledge st))")
  apply simp
  subgoal for st x y
    using remove_empties_size[of st True y] by simp
  subgoal for st x y xa ya
    using remove_empties_size[of st False y] update_size[of y ya] by simp
  done


text \<open>The inner loop never lets \<open>i_max - i\<close> grow, which is what ends the outer loop.\<close>

lemma expand_inner_gap:
  "expand_inner kb i j i_max j_max = Inr (kb', i', j', i_max') \<Longrightarrow> i_max' - i' \<le> i_max - i"
proof (induction kb i j i_max j_max rule: expand_inner.induct)
  case (1 kb i j i_max j_max)
  show ?case
  proof (cases "j < j_max")
    case False
    with "1.prems" show ?thesis by simp
  next
    case jlt: True
    show ?thesis
    proof (cases "i = j")
      case True
      with jlt "1.prems" "1.IH"(1) show ?thesis by simp
    next
      case ne: False
      from jlt ne "1.prems" obtain si sj where
        gi: "getitem kb i = Inr si" and gj: "getitem kb j = Inr sj"
        by (auto split: sum.splits)
      show ?thesis
      proof (cases "si = sj")
        case True
        with jlt ne gi gj "1.prems"
        have "expand_inner (remove1 sj kb) (if j < i then i - 1 else i) j (i_max - 1) (j_max - 1)
              = Inr (kb', i', j', i_max')" by simp
        from "1.IH"(2)[OF jlt ne gi gj True this] show ?thesis
          by (simp split: if_splits)
      next
        case neq: False
        show ?thesis
        proof (cases "cells sj |\<subset>| cells si")
          case True
          with jlt ne gi gj neq "1.prems"
          have "expand_inner (kb @ [\<lparr>cells = cells si |-| cells sj, count = count si - count sj\<rparr>])
                  i (j + 1) i_max j_max = Inr (kb', i', j', i_max')" by simp
          from "1.IH"(3)[OF jlt ne gi gj neq True this] show ?thesis .
        next
          case False
          with jlt ne gi gj neq "1.prems"
          have "expand_inner kb i (j + 1) i_max j_max = Inr (kb', i', j', i_max')" by simp
          from "1.IH"(4)[OF jlt ne gi gj neq False this] show ?thesis .
        qed
      qed
    qed
  qed
qed

text \<open>The outer loop of the expansion ends.\<close>

termination expand_outer
proof (relation "measure (\<lambda>(kb, i, j, i_max). nat (i_max - i))")
  show "wf (measure (\<lambda>(kb, i, j, i_max). nat (i_max - i)))" by simp
next
  fix kb :: "Sentence list" and i j i_max :: int
    and x2 :: "Sentence list \<times> int \<times> int \<times> int"
    and kb' :: "Sentence list" and y :: "int \<times> int \<times> int" and i' :: int
    and ya :: "int \<times> int" and j' i_max' :: int
  assume lt: "i < i_max"
    and r: "expand_inner kb i j i_max (int (length kb)) = Inr x2"
    and x2: "(kb', y) = x2" and y: "(i', ya) = y" and ya: "(j', i_max') = ya"
  from r x2 y ya have "expand_inner kb i j i_max (int (length kb)) = Inr (kb', i', j', i_max')"
    by simp
  from expand_inner_gap[OF this] lt
  show "((kb', i' + 1, j', i_max'), (kb, i, j, i_max)) \<in> measure (\<lambda>(kb, i, j, i_max). nat (i_max - i))"
    by simp
qed







text \<open>The equations of the loops are unfolded by hand, one call at a time.\<close>

declare saturate.simps [simp del]
declare expand_inner.simps [simp del]
declare expand_outer.simps [simp del]

section \<open>The removal loop on objects\<close>

text \<open>With \<open>pre\<close> the references already visited and \<open>x\<close> the one visited now,
  \<open>list.remove\<close> drops \<open>x\<close> or an equal object of \<open>pre\<close>: the references not yet
  visited keep their place after as many references as before.\<close>

lemma map_store_marked:
  "map (\<lambda>a. if a \<in> set l then f (H a) else H a) l = map f (map H l)"
  by (induction l) (auto intro: map_cong)

lemma values_obj_mark_mine: "values_of st (obj_mark_mine c os) = mark_mine c (values_of st os)"
  by (simp add: values_of_def obj_mark_mine_def mark_mine_def map_store_marked del: map_map)

lemma values_obj_mark_safe: "values_of st (obj_mark_safe c os) = mark_safe c (values_of st os)"
  by (simp add: values_of_def obj_mark_safe_def mark_safe_def map_store_marked del: map_map)

lemma fold_obj_mark_mine:
  "values_of st (fold obj_mark_mine cs os) = fold mark_mine cs (values_of st os)
   \<and> refs (fold obj_mark_mine cs os) = refs os"
proof (induction cs arbitrary: os)
  case Nil
  show ?case by simp
next
  case (Cons c cs)
  have "refs (obj_mark_mine c os) = refs os" by (simp add: obj_mark_mine_def)
  with Cons.IH[of "obj_mark_mine c os"] show ?case by (simp add: values_obj_mark_mine)
qed

lemma fold_obj_mark_safe:
  "values_of st (fold obj_mark_safe cs os) = fold mark_safe cs (values_of st os)
   \<and> refs (fold obj_mark_safe cs os) = refs os"
proof (induction cs arbitrary: os)
  case Nil
  show ?case by simp
next
  case (Cons c cs)
  have "refs (obj_mark_safe c os) = refs os" by (simp add: obj_mark_safe_def)
  with Cons.IH[of "obj_mark_safe c os"] show ?case by (simp add: values_obj_mark_safe)
qed

lemma list_remove_visited:
  "distinct (pre @ x # snap) \<Longrightarrow>
   \<exists>pre'. list_remove H (H x) (pre @ x # snap) = Some (pre' @ snap)
      \<and> length pre' = length pre \<and> distinct (pre' @ snap)
      \<and> set (pre' @ snap) \<subseteq> set (pre @ x # snap)
      \<and> map H (pre' @ snap) = remove1 (H x) (map H (pre @ x # snap))"
proof (induction pre)
  case Nil
  then show ?case by auto
next
  case (Cons a pre)
  show ?case
  proof (cases "H a = H x")
    case True
    have "list_remove H (H x) ((a # pre) @ x # snap) = Some ((pre @ [x]) @ snap)"
      using True by simp
    moreover have "length (pre @ [x]) = length (a # pre)" by simp
    moreover from Cons.prems have "distinct ((pre @ [x]) @ snap)" by simp
    moreover have "set ((pre @ [x]) @ snap) \<subseteq> set ((a # pre) @ x # snap)" by auto
    moreover have "map H ((pre @ [x]) @ snap) = remove1 (H x) (map H ((a # pre) @ x # snap))"
      using True by simp
    ultimately show ?thesis by blast
  next
    case False
    from Cons.prems have "distinct (pre @ x # snap)" by simp
    from Cons.IH[OF this] obtain pre' where
      p: "list_remove H (H x) (pre @ x # snap) = Some (pre' @ snap)"
        "length pre' = length pre" "distinct (pre' @ snap)"
        "set (pre' @ snap) \<subseteq> set (pre @ x # snap)"
        "map H (pre' @ snap) = remove1 (H x) (map H (pre @ x # snap))" by blast
    from False p(1)
    have "list_remove H (H x) ((a # pre) @ x # snap) = Some ((a # pre') @ snap)" by simp
    moreover from p(2) have "length (a # pre') = length (a # pre)" by simp
    moreover from Cons.prems p(3,4) have "distinct ((a # pre') @ snap)" by auto
    moreover from p(4) have "set ((a # pre') @ snap) \<subseteq> set ((a # pre) @ x # snap)" by auto
    moreover from False p(5)
    have "map H ((a # pre') @ snap) = remove1 (H x) (map H ((a # pre) @ x # snap))" by simp
    ultimately show ?thesis by blast
  qed
qed

lemma obj_remove_loop_refines:
  "refs os = pre @ snap \<Longrightarrow> distinct (refs os) \<Longrightarrow> length vs = length snap \<Longrightarrow>
   \<exists>r' os'. obj_remove_loop snap r os = Some (r', os')
      \<and> remove_loop vs (length pre) r (values_of st os) = (r', values_of st os')"
proof (induction snap arbitrary: pre r os vs)
  case Nil
  then show ?case by simp
next
  case (Cons x snap)
  from Cons.prems(3) obtain v vs' where vs: "vs = v # vs'" and lvs: "length vs' = length snap"
    by (cases vs) auto
  let ?k = "length pre"
  let ?st = "values_of st os"
  have at: "knowledge (values_of st os1) ! ?k = store os1 x" if "refs os1 = pre @ x # snap" for os1
    using that by (simp add: values_of_def nth_append)
  have removed: "\<exists>r' os'. obj_remove_loop (x # snap) r os = Some (r', os')
      \<and> remove_loop vs ?k r ?st = (r', values_of st os')"
    if os1: "refs os1 = pre @ x # snap" "distinct (refs os1)"
      and step: "\<And>l. list_remove (store os1) (store os1 x) (refs os1) = Some l \<Longrightarrow>
         obj_remove_loop (x # snap) r os = obj_remove_loop snap True (os1\<lparr>refs := l\<rparr>)
         \<and> remove_loop vs ?k r ?st =
             remove_loop vs' ?k True ((values_of st os1)
               \<lparr>knowledge := remove1 (knowledge (values_of st os1) ! ?k) (knowledge (values_of st os1))\<rparr>)"
    for os1
  proof -
    from list_remove_visited[of pre x snap "store os1"] os1 obtain pre' where
      p: "list_remove (store os1) (store os1 x) (refs os1) = Some (pre' @ snap)"
        "length pre' = length pre" "distinct (pre' @ snap)"
        "map (store os1) (pre' @ snap) = remove1 (store os1 x) (map (store os1) (pre @ x # snap))"
      by auto
    let ?os2 = "os1\<lparr>refs := pre' @ snap\<rparr>"
    have v2: "values_of st ?os2 = (values_of st os1)
               \<lparr>knowledge := remove1 (knowledge (values_of st os1) ! ?k) (knowledge (values_of st os1))\<rparr>"
      using p(4) at[OF os1(1)] os1(1) by (simp add: values_of_def)
    from Cons.IH[of ?os2 pre' vs' True] p(2,3) lvs obtain r' os' where
      "obj_remove_loop snap True ?os2 = Some (r', os')"
      "remove_loop vs' ?k True (values_of st ?os2) = (r', values_of st os')" by auto
    with step[OF p(1)] v2 show ?thesis by simp
  qed
  let ?s = "store os x"
  have s: "knowledge ?st ! ?k = ?s" by (rule at) (rule Cons.prems(1))
  show ?case
  proof (cases "fcard (cells ?s) = 0")
    case True
    show ?thesis
    proof (rule removed[of os])
      show "refs os = pre @ x # snap" by (rule Cons.prems(1))
      show "distinct (refs os)" by (rule Cons.prems(2))
      fix l assume "list_remove (store os) (store os x) (refs os) = Some l"
      with True s show "obj_remove_loop (x # snap) r os = obj_remove_loop snap True (os\<lparr>refs := l\<rparr>)
         \<and> remove_loop vs ?k r ?st =
             remove_loop vs' ?k True (?st\<lparr>knowledge := remove1 (knowledge ?st ! ?k) (knowledge ?st)\<rparr>)"
        by (simp add: vs)
    qed
  next
    case ne: False
    show ?thesis
    proof (cases "known_mines ?s \<noteq> {||}")
      case True
      let ?os1 = "fold obj_mark_mine (sorted_list_of_fset (known_mines ?s)) os"
      from fold_obj_mark_mine[of st "sorted_list_of_fset (known_mines ?s)" os]
      have v1: "values_of st ?os1 = fold mark_mine (sorted_list_of_fset (known_mines ?s)) ?st"
        and r1: "refs ?os1 = refs os" by simp_all
      show ?thesis
      proof (rule removed[of ?os1])
        show "refs ?os1 = pre @ x # snap" using r1 Cons.prems(1) by simp
        show "distinct (refs ?os1)" using r1 Cons.prems(2) by simp
        fix l assume "list_remove (store ?os1) (store ?os1 x) (refs ?os1) = Some l"
        with True ne s v1 show "obj_remove_loop (x # snap) r os = obj_remove_loop snap True (?os1\<lparr>refs := l\<rparr>)
         \<and> remove_loop vs ?k r ?st =
             remove_loop vs' ?k True ((values_of st ?os1)
               \<lparr>knowledge := remove1 (knowledge (values_of st ?os1) ! ?k) (knowledge (values_of st ?os1))\<rparr>)"
          by (simp add: vs Let_def)
      qed
    next
      case nm: False
      show ?thesis
      proof (cases "known_safes ?s \<noteq> {||}")
        case True
        let ?os1 = "fold obj_mark_safe (sorted_list_of_fset (known_safes ?s)) os"
        from fold_obj_mark_safe[of st "sorted_list_of_fset (known_safes ?s)" os]
        have v1: "values_of st ?os1 = fold mark_safe (sorted_list_of_fset (known_safes ?s)) ?st"
          and r1: "refs ?os1 = refs os" by simp_all
        show ?thesis
        proof (rule removed[of ?os1])
          show "refs ?os1 = pre @ x # snap" using r1 Cons.prems(1) by simp
          show "distinct (refs ?os1)" using r1 Cons.prems(2) by simp
          fix l assume "list_remove (store ?os1) (store ?os1 x) (refs ?os1) = Some l"
          with True ne nm s v1 show "obj_remove_loop (x # snap) r os = obj_remove_loop snap True (?os1\<lparr>refs := l\<rparr>)
           \<and> remove_loop vs ?k r ?st =
               remove_loop vs' ?k True ((values_of st ?os1)
                 \<lparr>knowledge := remove1 (knowledge (values_of st ?os1) ! ?k) (knowledge (values_of st ?os1))\<rparr>)"
            by (simp add: vs Let_def)
        qed
      next
        case False
        from Cons.prems(1) have "refs os = (pre @ [x]) @ snap" by simp
        from Cons.IH[OF this Cons.prems(2) lvs, of r] obtain r' os' where
          "obj_remove_loop snap r os = Some (r', os')"
          "remove_loop vs' (Suc ?k) r ?st = (r', values_of st os')" by auto
        with False ne nm s show ?thesis by (simp add: vs Let_def)
      qed
    qed
  qed
qed

lemma remove_empties_on_objects:
  assumes "distinct (refs os)"
  shows "\<exists>r os'. obj_remove_loop (refs os) False os = Some (r, os')
     \<and> remove_empties_and_safes_and_Mines (values_of st os) = (r, values_of st os')"
  using obj_remove_loop_refines[of os "[]" "refs os" "map (store os) (refs os)" False st] assms
  by (simp add: remove_empties_and_safes_and_Mines_def values_of_def)

section \<open>The order of iteration over a set\<close>


lemma cells_mark_mine: "cells (Sentence_mark_mine c s) = cells s |-| {|c|}"
  by (auto simp: Sentence_mark_mine_def)

lemma cells_mark_safe: "cells (Sentence_mark_safe c s) = cells s |-| {|c|}"
  by (auto simp: Sentence_mark_safe_def)

lemma mark_safe_absent: "c |\<notin>| cells s \<Longrightarrow> Sentence_mark_safe c s = s"
  by (simp add: Sentence_mark_safe_def)

lemma fold_front:
  assumes "\<And>a b s. f a (f b s) = f b (f a s)"
  shows "fold f (as @ x # bs) s = fold f (x # as @ bs) s"
proof (induction as arbitrary: s)
  case Nil
  show ?case by simp
next
  case (Cons a as)
  have "fold f ((a # as) @ x # bs) s = fold f (as @ x # bs) (f a s)" by simp
  also have "\<dots> = fold f (x # as @ bs) (f a s)" by (rule Cons.IH)
  also have "\<dots> = fold f (as @ bs) (f x (f a s))" by simp
  also have "\<dots> = fold f (as @ bs) (f a (f x s))" by (simp only: assms[of x a])
  also have "\<dots> = fold f (x # (a # as) @ bs) s" by simp
  finally show ?case .
qed

lemma fold_any_order:
  assumes "\<And>a b s. f a (f b s) = f b (f a s)"
  shows "distinct xs \<Longrightarrow> distinct ys \<Longrightarrow> set xs = set ys \<Longrightarrow> fold f xs s = fold f ys s"
proof (induction xs arbitrary: ys s)
  case Nil
  then show ?case by simp
next
  case (Cons x xs)
  from Cons.prems(3) have "x \<in> set ys" by auto
  then obtain as bs where ys: "ys = as @ x # bs" by (auto dest: split_list)
  with Cons.prems have d: "distinct (as @ bs)" and s: "set xs = set (as @ bs)" by auto
  from Cons.prems(1) have "distinct xs" by simp
  from Cons.IH[OF this d s, of "f x s"] have "fold f (x # xs) s = fold f (x # as @ bs) s" by simp
  also have "\<dots> = fold f (as @ x # bs) s" by (rule fold_front[symmetric]) (rule assms)
  finally show ?case by (simp only: ys)
qed

lemma Sentence_mark_mine_commute:
  "Sentence_mark_mine a (Sentence_mark_mine b s) = Sentence_mark_mine b (Sentence_mark_mine a s)"
proof -
  have "cells s |-| {|b|} |-| {|a|} = cells s |-| {|a|} |-| {|b|}" by auto
  then show ?thesis by (simp add: Sentence_mark_mine_def)
qed

lemma Sentence_mark_safe_commute:
  "Sentence_mark_safe a (Sentence_mark_safe b s) = Sentence_mark_safe b (Sentence_mark_safe a s)"
proof -
  have "cells s |-| {|b|} |-| {|a|} = cells s |-| {|a|} |-| {|b|}" by auto
  then show ?thesis by (simp add: Sentence_mark_safe_def)
qed

lemma mark_mine_commute: "mark_mine a (mark_mine b st) = mark_mine b (mark_mine a st)"
proof -
  have "Sentence_mark_mine a \<circ> Sentence_mark_mine b = Sentence_mark_mine b \<circ> Sentence_mark_mine a"
    by (rule ext) (simp only: o_apply Sentence_mark_mine_commute[of a b])
  moreover have "finsert a (finsert b (mines st)) = finsert b (finsert a (mines st))"
    by (rule finsert_commute)
  ultimately show ?thesis by (simp add: mark_mine_def)
qed

lemma mark_safe_commute: "mark_safe a (mark_safe b st) = mark_safe b (mark_safe a st)"
proof -
  have "Sentence_mark_safe a \<circ> Sentence_mark_safe b = Sentence_mark_safe b \<circ> Sentence_mark_safe a"
    by (rule ext) (simp only: o_apply Sentence_mark_safe_commute[of a b])
  moreover have "finsert a (finsert b (safes st)) = finsert b (finsert a (safes st))"
    by (rule finsert_commute)
  ultimately show ?thesis by (simp add: mark_safe_def)
qed

lemma sweep_step_commute:
  "sweep_step a (sweep_step b acc) = sweep_step b (sweep_step a acc)"
proof -
  have mem: "(\<exists>s\<in>set kb. x |\<in>| cells (Sentence_mark_safe y s)) \<longleftrightarrow>
      x \<noteq> y \<and> (\<exists>s\<in>set kb. x |\<in>| cells s)" for x y kb
    by (auto simp: Sentence_mark_safe_def)
  show ?thesis
    by (cases acc) (auto simp: sweep_step_def sweep_safe_eq mem Sentence_mark_safe_commute)
qed

text \<open>Any order of visiting the cells of a set gives the result of the sorted order,
  for each of the three loops over a set that change the state.\<close>

lemma fold_sorted_order:
  assumes "\<And>a b s. f a (f b s) = f b (f a s)" and "distinct xs" and "fset_of_list xs = S"
  shows "fold f xs s = fold f (sorted_list_of_fset S) s"
proof (rule fold_any_order)
  show "f a (f b s) = f b (f a s)" for a b s by (rule assms(1))
  show "distinct xs" by (rule assms(2))
  show "distinct (sorted_list_of_fset S)" by (simp add: sorted_list_of_fset.rep_eq)
  from assms(3) show "set xs = set (sorted_list_of_fset S)" by (auto simp: fset_of_list.rep_eq)
qed

lemma fold_mark_mine_order:
  "distinct xs \<Longrightarrow> fset_of_list xs = S \<Longrightarrow>
   fold mark_mine xs st = fold mark_mine (sorted_list_of_fset S) st"
  by (rule fold_sorted_order) (rule mark_mine_commute)

lemma fold_mark_safe_order:
  "distinct xs \<Longrightarrow> fset_of_list xs = S \<Longrightarrow>
   fold mark_safe xs st = fold mark_safe (sorted_list_of_fset S) st"
  by (rule fold_sorted_order) (rule mark_safe_commute)

lemma fold_sweep_step_order:
  "distinct xs \<Longrightarrow> fset_of_list xs = S \<Longrightarrow>
   fold sweep_step xs acc = fold sweep_step (sorted_list_of_fset S) acc"
  by (rule fold_sorted_order) (rule sweep_step_commute)



section \<open>Marking a cell twice\<close>

lemma Sentence_mark_safe_idem:
  "Sentence_mark_safe c (Sentence_mark_safe c s) = Sentence_mark_safe c s"
  by (simp add: Sentence_mark_safe_def)

lemma Sentence_mark_mine_idem:
  "Sentence_mark_mine c (Sentence_mark_mine c s) = Sentence_mark_mine c s"
  by (simp add: Sentence_mark_mine_def)

text \<open>
  C8. \<open>MinesweeperAI.mark_safe\<close> and \<open>MinesweeperAI.mark_mine\<close> are idempotent: for
  every cell and every state of the player, marking the cell twice gives the same
  state (all fields, the knowledge base included) as marking it once.
\<close>

theorem mark_twice_is_mark_once:
  "mark_safe c (mark_safe c st) = mark_safe c st \<and> mark_mine c (mark_mine c st) = mark_mine c st"
  by (simp add: mark_safe_def mark_mine_def Sentence_mark_safe_idem Sentence_mark_mine_idem)

section \<open>Move selection\<close>

lemma set_py_range: "set (py_range a b) = {k. a \<le> k \<and> k < b}"
  by (auto simp: py_range_def)

lemma set_board_cells:
  "set (board_cells h w) = {c. 0 \<le> fst c \<and> fst c < h \<and> 0 \<le> snd c \<and> snd c < w}"
  by (auto simp: board_cells_def set_py_range)

lemma make_random_move_None: "make_random_move st = None \<longleftrightarrow> (\<forall>c. \<not> free_cell st c)"
  by (auto simp: make_random_move_def find_None_iff set_board_cells free_cell_def)

lemma make_random_move_Some: "make_random_move st = Some c \<Longrightarrow> free_cell st c"
proof -
  assume "make_random_move st = Some c"
  then have "c \<in> set (board_cells (height st) (width st))"
    and "c |\<notin>| moves_made st \<and> c |\<notin>| mines st"
    by (auto simp: make_random_move_def find_Some_iff)
  then show ?thesis by (simp add: set_board_cells free_cell_def)
qed

text \<open>
  C7. \<open>make_random_move\<close> returns a cell of the board that is in neither \<open>moves_made\<close>
  nor \<open>mines\<close> whenever there is one, and it returns \<open>None\<close> (it has no way to raise)
  exactly when every cell of the board is in \<open>moves_made\<close> or in \<open>mines\<close>.
\<close>

theorem make_random_move_result:
  "(make_random_move st = None \<longleftrightarrow>
      (\<forall>i j. 0 \<le> i \<and> i < height st \<and> 0 \<le> j \<and> j < width st \<longrightarrow>
             (i, j) |\<in>| moves_made st |\<union>| mines st))
   \<and> (\<forall>c. make_random_move st = Some c \<longrightarrow>
          0 \<le> fst c \<and> fst c < height st \<and> 0 \<le> snd c \<and> snd c < width st
          \<and> c |\<notin>| moves_made st \<and> c |\<notin>| mines st)"
proof -
  have none: "make_random_move st = None \<longleftrightarrow>
      (\<forall>i j. 0 \<le> i \<and> i < height st \<and> 0 \<le> j \<and> j < width st \<longrightarrow>
             (i, j) |\<in>| moves_made st |\<union>| mines st)"
    unfolding make_random_move_None by (auto simp: free_cell_def)
  have some: "0 \<le> fst c \<and> fst c < height st \<and> 0 \<le> snd c \<and> snd c < width st
          \<and> c |\<notin>| moves_made st \<and> c |\<notin>| mines st" if "make_random_move st = Some c" for c
    using make_random_move_Some[OF that] by (simp add: free_cell_def)
  from none some show ?thesis by blast
qed

text \<open>The theorem at two players of a board of one row: with \<open>(0, 0)\<close> played on a
  board of two cells the move is \<open>(0, 1)\<close>; with the only cell of a board known as a
  mine there is no move.\<close>

theorem make_random_move_result_witness:
  "make_random_move ((init 1 2)\<lparr>moves_made := {|(0, 0)|}\<rparr>) = Some (0, 1)
   \<and> (0, 1) |\<notin>| moves_made ((init 1 2)\<lparr>moves_made := {|(0, 0)|}\<rparr>)
   \<and> (0, 1) |\<notin>| mines ((init 1 2)\<lparr>moves_made := {|(0, 0)|}\<rparr>)
   \<and> make_random_move ((init 1 1)\<lparr>mines := {|(0, 0)|}\<rparr>) = None"
proof -
  let ?a = "(init 1 2)\<lparr>moves_made := {|(0, 0)|}\<rparr>"
  let ?b = "(init 1 1)\<lparr>mines := {|(0, 0)|}\<rparr>"
  have e: "make_random_move ?a = Some (0, 1)" by code_simp
  from make_random_move_result[of ?a] e
  have free: "(0, 1) |\<notin>| moves_made ?a \<and> (0, 1) |\<notin>| mines ?a" by blast
  have "\<forall>i j. 0 \<le> i \<and> i < height ?b \<and> 0 \<le> j \<and> j < width ?b \<longrightarrow>
          (i, j) |\<in>| moves_made ?b |\<union>| mines ?b"
    by (simp add: init_def)
  with make_random_move_result[of ?b] have "make_random_move ?b = None" by blast
  with e free show ?thesis by blast
qed

lemma find_least:
  "sorted xs \<Longrightarrow> find P xs = Some x \<Longrightarrow> y \<in> set xs \<Longrightarrow> P y \<Longrightarrow> x \<le> y"
proof -
  assume s: "sorted xs" and f: "find P xs = Some x" and y: "y \<in> set xs" and p: "P y"
  from f obtain i where i: "i < length xs" "x = xs ! i" "\<forall>j<i. \<not> P (xs ! j)"
    by (auto simp: find_Some_iff)
  from y obtain k where k: "k < length xs" "y = xs ! k" by (auto simp: in_set_conv_nth)
  from i(3) k p have "i \<le> k" by (meson not_le)
  with s k i show ?thesis by (simp add: sorted_nth_mono)
qed

text \<open>The cells of the board, as the two loops visit them, are in lexicographic
  order of \<open>(i, j)\<close>.\<close>

lemma sorted_rows:
  "sorted_wrt (<) rows \<Longrightarrow> sorted cols \<Longrightarrow>
   sorted (concat (map (\<lambda>i. map (\<lambda>j. (i, j)) cols) rows))"
proof (induction rows)
  case Nil
  then show ?case by simp
next
  case (Cons i rows)
  from Cons.prems(2) have row: "sorted (map (\<lambda>j. (i, j)) cols)"
    by (simp add: sorted_map sorted_wrt_mono_rel[of cols "(\<le>)"])
  from Cons.prems(1) have lt: "\<forall>i'\<in>set rows. i < i'" and rest: "sorted_wrt (<) rows" by simp_all
  from lt have "\<forall>x\<in>set (map (\<lambda>j. (i, j)) cols).
     \<forall>y\<in>set (concat (map (\<lambda>i. map (\<lambda>j. (i, j)) cols) rows)). x \<le> y"
    by auto
  with row Cons.IH[OF rest Cons.prems(2)] show ?case by (simp add: sorted_append)
qed

lemma sorted_board_cells: "sorted (board_cells h w)"
  unfolding board_cells_def py_range_def by (rule sorted_rows) (simp_all add: sorted_wrt_upto)

lemma make_random_move_least:
  assumes "make_random_move st = Some c" and "free_cell st c'"
  shows "row_major_le c c'"
proof -
  from assms(2) have "c' \<in> set (board_cells (height st) (width st))"
    by (simp add: set_board_cells free_cell_def)
  from find_least[OF sorted_board_cells assms(1)[unfolded make_random_move_def] this] assms(2)
  have "c \<le> c'" by (simp add: free_cell_def)
  then show ?thesis by (cases c, cases c') (auto simp: less_eq_prod_def row_major_le_def)
qed

text \<open>
  C10. \<open>make_random_move\<close> is deterministic: it reads only \<open>height\<close>, \<open>width\<close>,
  \<open>moves_made\<close> and \<open>mines\<close> (the function has no other argument, and no source of
  randomness), so two players that agree on these four fields get the same result; the
  result is the free cell of the board that is smallest in row-major order, and
  \<open>None\<close> when the board has no free cell.
\<close>

theorem make_random_move_deterministic:
  assumes "height a = height b" and "width a = width b"
    and "moves_made a = moves_made b" and "mines a = mines b"
  shows "make_random_move a = make_random_move b
    \<and> (\<forall>c. make_random_move a = Some c \<longrightarrow>
           free_cell a c \<and> (\<forall>c'. free_cell a c' \<longrightarrow> row_major_le c c'))
    \<and> (make_random_move a = None \<longrightarrow> (\<forall>c'. \<not> free_cell a c'))"
proof (intro conjI)
  from assms show "make_random_move a = make_random_move b"
    by (simp add: make_random_move_def)
next
  show "\<forall>c. make_random_move a = Some c \<longrightarrow>
           free_cell a c \<and> (\<forall>c'. free_cell a c' \<longrightarrow> row_major_le c c')"
    using make_random_move_Some make_random_move_least by blast
next
  show "make_random_move a = None \<longrightarrow> (\<forall>c'. \<not> free_cell a c')"
    by (simp add: make_random_move_None)
qed

text \<open>The theorem at two players of a two by two board that differ in \<open>safes\<close> and in
  the knowledge base only: both get \<open>(0, 1)\<close>, the first free cell.\<close>

theorem make_random_move_deterministic_witness:
  "make_random_move ((init 2 2)\<lparr>moves_made := {|(0, 0)|}\<rparr>) =
     make_random_move ((init 2 2)\<lparr>moves_made := {|(0, 0)|}, safes := {|(0, 0)|},
        knowledge := [\<lparr>cells = {|(0, 1), (1, 0), (1, 1)|}, count = 1\<rparr>]\<rparr>)
   \<and> make_random_move ((init 2 2)\<lparr>moves_made := {|(0, 0)|}\<rparr>) = Some (0, 1)
   \<and> free_cell ((init 2 2)\<lparr>moves_made := {|(0, 0)|}\<rparr>) (0, 1)
   \<and> row_major_le (0, 1) (1, 0)"
proof -
  let ?a = "(init 2 2)\<lparr>moves_made := {|(0, 0)|}\<rparr>"
  let ?b = "(init 2 2)\<lparr>moves_made := {|(0, 0)|}, safes := {|(0, 0)|},
        knowledge := [\<lparr>cells = {|(0, 1), (1, 0), (1, 1)|}, count = 1\<rparr>]\<rparr>"
  have h: "height ?a = height ?b" "width ?a = width ?b"
    "moves_made ?a = moves_made ?b" "mines ?a = mines ?b"
    by (simp_all add: init_def)
  have e: "make_random_move ?a = Some (0, 1)" by code_simp
  have f: "free_cell ?a (1, 0)" by (simp add: free_cell_def init_def)
  from make_random_move_deterministic[OF h] e f
  have "make_random_move ?a = make_random_move ?b" and "free_cell ?a (0, 1)"
    and "row_major_le (0, 1) (1, 0)" by blast+
  with e show ?thesis by blast
qed

text \<open>
  C9. For every order \<open>order\<close> in which the loop may visit the cells of \<open>safes\<close>:
  \<open>make_safe_move\<close> returns a cell of \<open>safes \<setminus> moves_made \<setminus> mines\<close> when that set is
  not empty and \<open>None\<close> when it is empty, and it leaves the state of the player as it
  was.
\<close>

theorem make_safe_move_result:
  assumes "fset_of_list order = safes st"
  shows "snd (make_safe_move order st) = st
    \<and> (safes st |-| moves_made st |-| mines st = {||} \<longrightarrow> fst (make_safe_move order st) = None)
    \<and> (safes st |-| moves_made st |-| mines st \<noteq> {||} \<longrightarrow>
         (\<exists>c. fst (make_safe_move order st) = Some c \<and> c |\<in>| safes st |-| moves_made st |-| mines st))"
proof -
  let ?P = "\<lambda>c. c |\<notin>| moves_made st \<and> c |\<notin>| mines st"
  from assms have mem: "\<And>c. c \<in> set order \<longleftrightarrow> c |\<in>| safes st"
    by (metis fset_of_list.rep_eq)
  have a: "snd (make_safe_move order st) = st" by (simp add: make_safe_move_def)
  have b: "fst (make_safe_move order st) = None" if "safes st |-| moves_made st |-| mines st = {||}"
  proof -
    have "\<not> ?P c" if "c \<in> set order" for c
      using that \<open>safes st |-| moves_made st |-| mines st = {||}\<close> mem by auto
    then show ?thesis by (simp add: make_safe_move_def find_None_iff)
  qed
  have c: "\<exists>c. fst (make_safe_move order st) = Some c \<and> c |\<in>| safes st |-| moves_made st |-| mines st"
    if "safes st |-| moves_made st |-| mines st \<noteq> {||}"
  proof -
    from that obtain x where "x |\<in>| safes st" "?P x" by auto
    with mem have "\<exists>x\<in>set order. ?P x" by blast
    then obtain c where f: "find ?P order = Some c"
      by (cases "find ?P order") (auto simp: find_None_iff)
    then have "c \<in> set order" "?P c" by (auto simp: find_Some_iff)
    with mem f show ?thesis by (auto simp: make_safe_move_def)
  qed
  from a b c show ?thesis by blast
qed

text \<open>The theorem at a player with two safe cells, one of them played, and at a player
  with no safe cell.\<close>

theorem make_safe_move_result_witness:
  "fset_of_list [(0, 0), (0, 1)] = safes ((init 2 2)\<lparr>moves_made := {|(0, 0)|}, safes := {|(0, 0), (0, 1)|}\<rparr>)
   \<and> make_safe_move [(0, 0), (0, 1)] ((init 2 2)\<lparr>moves_made := {|(0, 0)|}, safes := {|(0, 0), (0, 1)|}\<rparr>)
       = (Some (0, 1), (init 2 2)\<lparr>moves_made := {|(0, 0)|}, safes := {|(0, 0), (0, 1)|}\<rparr>)
   \<and> make_safe_move [] (init 2 2) = (None, init 2 2)"
proof -
  let ?a = "(init 2 2)\<lparr>moves_made := {|(0, 0)|}, safes := {|(0, 0), (0, 1)|}\<rparr>"
  have o: "fset_of_list [(0, 0), (0, 1)] = safes ?a" by (simp add: init_def)
  have ne: "safes ?a |-| moves_made ?a |-| mines ?a \<noteq> {||}" by (auto simp: init_def)
  from make_safe_move_result[OF o] ne
  obtain c where c: "fst (make_safe_move [(0, 0), (0, 1)] ?a) = Some c"
    and s: "snd (make_safe_move [(0, 0), (0, 1)] ?a) = ?a" by blast
  have "fst (make_safe_move [(0, 0), (0, 1)] ?a) = Some (0, 1)"
    by (simp add: make_safe_move_def init_def)
  with s have r1: "make_safe_move [(0, 0), (0, 1)] ?a = (Some (0, 1), ?a)"
    by (simp add: prod_eq_iff)
  have o2: "fset_of_list [] = safes (init 2 2)" by (simp add: init_def)
  have "safes (init 2 2) |-| moves_made (init 2 2) |-| mines (init 2 2) = {||}"
    by (simp add: init_def)
  with make_safe_move_result[OF o2] have "make_safe_move [] (init 2 2) = (None, init 2 2)"
    by (simp add: prod_eq_iff)
  with o r1 show ?thesis by blast
qed

section \<open>One observation on a three by three board\<close>

text \<open>
  C5, as amended. On the three by three board the call \<open>add_knowledge((2, 2), 0)\<close>
  on a new player returns with exactly four cells in \<open>safes\<close>: the cell \<open>(2, 2)\<close> and
  its three neighbours on the board, \<open>(1, 1)\<close>, \<open>(1, 2)\<close> and \<open>(2, 1)\<close>. The cell
  \<open>(0, 0)\<close> is not in \<open>safes\<close>; no cell is in \<open>mines\<close> and no sentence is left.
\<close>

theorem corner_observation_marks_its_neighbours:
  "add_knowledge (2, 2) 0 (init 3 3) =
     Inr \<lparr>height = 3, width = 3, moves_made = {|(2, 2)|}, mines = {||},
          safes = {|(1, 1), (1, 2), (2, 1), (2, 2)|}, knowledge = []\<rparr>"
  by code_simp

text \<open>The claim as it is written, all eight cells other than \<open>(0, 0)\<close> in \<open>safes\<close>
  after the call, is false.\<close>

theorem corner_observation_not_all_eight:
  "\<not> (case add_knowledge (2, 2) 0 (init 3 3) of
        Inl e \<Rightarrow> False
      | Inr st \<Rightarrow>
          fset_of_list [(0, 1), (0, 2), (1, 0), (1, 1), (1, 2), (2, 0), (2, 1), (2, 2)] |\<subseteq>| safes st
          \<and> (0, 0) |\<notin>| safes st)"
  by code_simp

section \<open>The subset expansion skips pairs\<close>

text \<open>
  C1. The claim is that the expansion visits every ordered pair of sentences. On
  the board of two rows and three columns with one mine at \<open>(1, 0)\<close>, the calls
  \<open>add_knowledge((0, 1), 1)\<close> and \<open>add_knowledge((0, 0), 1)\<close> leave the sentences
  \<open>A = ({(0,2), (1,0), (1,1), (1,2)}, 1)\<close> and \<open>B = ({(1,0), (1,1)}, 1)\<close>, the cells of
  \<open>B\<close> a strict subset of the cells of \<open>A\<close>; the second call starts its expansion at
  \<open>i = 1\<close>, \<open>j = 1\<close> and ends it without reading the pair, so \<open>({(0,2), (1,2)}, 0)\<close>
  is not derived and neither cell is marked safe.
\<close>

theorem expansion_misses_subset_pair:
  "add_knowledge (0, 1) 1 (init 2 3) =
     Inr \<lparr>height = 2, width = 3, moves_made = {|(0, 1)|}, mines = {||}, safes = {|(0, 1)|},
          knowledge = [\<lparr>cells = {|(0, 0), (0, 2), (1, 0), (1, 1), (1, 2)|}, count = 1\<rparr>]\<rparr>
   \<and> add_knowledge (0, 0) 1
       \<lparr>height = 2, width = 3, moves_made = {|(0, 1)|}, mines = {||}, safes = {|(0, 1)|},
        knowledge = [\<lparr>cells = {|(0, 0), (0, 2), (1, 0), (1, 1), (1, 2)|}, count = 1\<rparr>]\<rparr> =
     Inr \<lparr>height = 2, width = 3, moves_made = {|(0, 0), (0, 1)|}, mines = {||},
          safes = {|(0, 0), (0, 1)|},
          knowledge = [\<lparr>cells = {|(0, 2), (1, 0), (1, 1), (1, 2)|}, count = 1\<rparr>,
                       \<lparr>cells = {|(1, 0), (1, 1)|}, count = 1\<rparr>]\<rparr>"
  by code_simp

section \<open>No sentence holds a known mine\<close>

text \<open>
  Whatever the arguments of the calls, a state reached through \<open>add_knowledge\<close>,
  \<open>mark_mine\<close> and \<open>mark_safe\<close> has no known mine in a sentence: \<open>mark_mine\<close> takes
  the cell out of every sentence, a new sentence leaves the known mines out, and the
  expansion only takes cells away.
\<close>

lemma getitem_mem: "getitem xs i = Inr x \<Longrightarrow> x \<in> set xs"
  by (auto simp: getitem_def Let_def split: if_splits)

lemma scan_step_cells:
  "fst (scan_step st c x (nb, cnt)) |\<subseteq>| finsert x nb
   \<and> (nb |\<inter>| mines st = {||} \<longrightarrow> fst (scan_step st c x (nb, cnt)) |\<inter>| mines st = {||})"
  by (auto simp: scan_step_def)

lemma mine_free_mark_safe: "mine_free st \<Longrightarrow> mine_free (mark_safe c st)"
  by (auto simp: mine_free_def mark_safe_def cells_mark_safe)

lemma mine_free_mark_mine: "mine_free st \<Longrightarrow> mine_free (mark_mine c st)"
  by (auto simp: mine_free_def mark_mine_def cells_mark_mine)

lemma mine_free_fold_mark_safe: "mine_free st \<Longrightarrow> mine_free (fold mark_safe cs st)"
  by (induction cs arbitrary: st) (simp_all add: mine_free_mark_safe)

lemma mine_free_fold_mark_mine: "mine_free st \<Longrightarrow> mine_free (fold mark_mine cs st)"
  by (induction cs arbitrary: st) (simp_all add: mine_free_mark_mine)

lemma mine_free_remove1: "mine_free st \<Longrightarrow> mine_free (st\<lparr>knowledge := remove1 s (knowledge st)\<rparr>)"
  by (auto simp: mine_free_def dest: notin_set_remove1)

lemma remove_loop_mine_free:
  "remove_loop snap k r st = (r', st') \<Longrightarrow> mine_free st \<Longrightarrow> mine_free st'"
proof (induction snap arbitrary: k r st)
  case Nil
  then show ?case by simp
next
  case (Cons x snap)
  let ?s = "knowledge st ! k"
  let ?m = "fold mark_mine (sorted_list_of_fset (known_mines ?s)) st"
  let ?f = "fold mark_safe (sorted_list_of_fset (known_safes ?s)) st"
  from Cons.prems(2)
  have a: "mine_free (st\<lparr>knowledge := remove1 ?s (knowledge st)\<rparr>)"
    and b: "mine_free (?m\<lparr>knowledge := remove1 (knowledge ?m ! k) (knowledge ?m)\<rparr>)"
    and c: "mine_free (?f\<lparr>knowledge := remove1 (knowledge ?f ! k) (knowledge ?f)\<rparr>)"
    by (simp_all only: mine_free_remove1 mine_free_fold_mark_mine mine_free_fold_mark_safe)
  from Cons.prems(1) Cons.IH[OF _ a] Cons.IH[OF _ b] Cons.IH[OF _ c] Cons.IH[OF _ Cons.prems(2)]
  show ?case by (simp add: Let_def split: if_splits)
qed

lemma update_knowledge:
  "knowledge (snd (update_mines_and_safes_in_KB st)) =
     fold (\<lambda>c. map (Sentence_mark_safe c))
       (sorted_list_of_fset (safes st) @ sorted_list_of_fset (mines st)) (knowledge st)
   \<and> mines (snd (update_mines_and_safes_in_KB st)) = mines st"
proof -
  have "snd (fold sweep_step cs acc) = fold (\<lambda>c. map (Sentence_mark_safe c)) cs (snd acc)"
    for cs acc
  proof (induction cs arbitrary: acc)
    case Nil
    show ?case by simp
  next
    case (Cons c cs)
    have "snd (sweep_step c acc) = map (Sentence_mark_safe c) (snd acc)"
      by (simp add: sweep_step_def sweep_safe_eq)
    with Cons.IH[of "sweep_step c acc"] show ?case by simp
  qed
  then show ?thesis by (simp add: update_mines_and_safes_in_KB_def Let_def)
qed

lemma update_mine_free:
  assumes "mine_free st"
  shows "mine_free (snd (update_mines_and_safes_in_KB st))"
proof -
  have "\<forall>s\<in>set (fold (\<lambda>c. map (Sentence_mark_safe c)) cs kb). cells s |\<inter>| ms = {||}"
    if "\<forall>s\<in>set kb. cells s |\<inter>| ms = {||}" for cs kb ms
    using that
  proof (induction cs arbitrary: kb)
    case Nil
    then show ?case by simp
  next
    case (Cons c cs)
    from Cons.prems have "\<forall>s\<in>set (map (Sentence_mark_safe c) kb). cells s |\<inter>| ms = {||}"
      by (auto simp: cells_mark_safe)
    from Cons.IH[OF this] show ?case by simp
  qed
  with assms show ?thesis unfolding mine_free_def update_knowledge[THEN conjunct1]
      update_knowledge[THEN conjunct2] by blast
qed

lemma saturate_mine_free: "mine_free st \<Longrightarrow> mine_free (saturate st)"
proof (induction st rule: saturate.induct)
  case (1 st)
  obtain r st1 where r: "remove_empties_and_safes_and_Mines st = (r, st1)"
    by (cases "remove_empties_and_safes_and_Mines st")
  from remove_loop_mine_free[OF r[unfolded remove_empties_and_safes_and_Mines_def] "1.prems"]
  have s1: "mine_free st1" .
  show ?case
  proof (cases r)
    case True
    from True have "r = True" by simp
    from "1.IH"(1)[OF r[symmetric] this s1] r True show ?thesis
      by (simp add: saturate.simps[of st])
  next
    case False
    obtain m st2 where m: "update_mines_and_safes_in_KB st1 = (m, st2)"
      by (cases "update_mines_and_safes_in_KB st1")
    from update_mine_free[OF s1] m have s2: "mine_free st2" by simp
    show ?thesis
    proof (cases m)
      case True
      from False True have "r = False" "m = True" by simp_all
      from "1.IH"(2)[OF r[symmetric] this(1) m[symmetric] this(2) s2] r m False True
      show ?thesis by (simp add: saturate.simps[of st])
    next
      case nm: False
      with False r m s2 show ?thesis by (simp add: saturate.simps[of st])
    qed
  qed
qed

lemma expand_inner_mine_free:
  "expand_inner kb i j i_max j_max = Inr (kb', i', j', i_max') \<Longrightarrow>
   \<forall>s\<in>set kb. cells s |\<inter>| ms = {||} \<Longrightarrow> \<forall>s\<in>set kb'. cells s |\<inter>| ms = {||}"
proof (induction kb i j i_max j_max rule: expand_inner.induct)
  case (1 kb i j i_max j_max)
  note unf = expand_inner.simps[of kb i j i_max j_max]
  show ?case
  proof (cases "j < j_max")
    case False
    with "1.prems" unf show ?thesis by simp
  next
    case jlt: True
    show ?thesis
    proof (cases "i = j")
      case True
      with jlt "1.prems" unf "1.IH"(1) show ?thesis by simp
    next
      case ne: False
      from jlt ne "1.prems"(1) unf obtain si sj where
        gi: "getitem kb i = Inr si" and gj: "getitem kb j = Inr sj"
        by (auto split: sum.splits)
      show ?thesis
      proof (cases "si = sj")
        case True
        with jlt ne gi gj "1.prems"(1) unf
        have run: "expand_inner (remove1 sj kb) (if j < i then i - 1 else i) j (i_max - 1) (j_max - 1)
              = Inr (kb', i', j', i_max')" by simp
        from "1.prems"(2) have "\<forall>s\<in>set (remove1 sj kb). cells s |\<inter>| ms = {||}"
          by (auto dest: notin_set_remove1)
        from "1.IH"(2)[OF jlt ne gi gj True run this] show ?thesis .
      next
        case neq: False
        show ?thesis
        proof (cases "cells sj |\<subset>| cells si")
          case True
          let ?kb1 = "kb @ [\<lparr>cells = cells si |-| cells sj, count = count si - count sj\<rparr>]"
          from True jlt ne gi gj neq "1.prems"(1) unf
          have run: "expand_inner ?kb1 i (j + 1) i_max j_max = Inr (kb', i', j', i_max')" by simp
          from "1.prems"(2) getitem_mem[OF gi] have "\<forall>s\<in>set ?kb1. cells s |\<inter>| ms = {||}"
            by auto
          from "1.IH"(3)[OF jlt ne gi gj neq True run this] show ?thesis .
        next
          case False
          with jlt ne gi gj neq "1.prems"(1) unf
          have "expand_inner kb i (j + 1) i_max j_max = Inr (kb', i', j', i_max')" by simp
          from "1.IH"(4)[OF jlt ne gi gj neq False this "1.prems"(2)] show ?thesis .
        qed
      qed
    qed
  qed
qed

lemma expand_outer_mine_free:
  "expand_outer kb i j i_max = Inr kb' \<Longrightarrow>
   \<forall>s\<in>set kb. cells s |\<inter>| ms = {||} \<Longrightarrow> \<forall>s\<in>set kb'. cells s |\<inter>| ms = {||}"
proof (induction kb i j i_max rule: expand_outer.induct)
  case (1 kb i j i_max)
  note unf = expand_outer.simps[of kb i j i_max]
  show ?case
  proof (cases "i < i_max")
    case False
    with "1.prems" unf show ?thesis by simp
  next
    case True
    with "1.prems"(1) unf obtain kb1 i1 j1 m1 where
      inner: "expand_inner kb i j i_max (int (length kb)) = Inr (kb1, i1, j1, m1)"
      and outer: "expand_outer kb1 (i1 + 1) j1 m1 = Inr kb'"
      by (auto split: sum.splits)
    from "1.IH"[OF True inner refl refl refl outer expand_inner_mine_free[OF inner "1.prems"(2)]]
    show ?thesis .
  qed
qed

lemma scan_mine_free:
  "nb |\<inter>| mines st = {||} \<Longrightarrow> fst (fold (scan_step st c) xs (nb, cnt)) |\<inter>| mines st = {||}"
proof (induction xs arbitrary: nb cnt)
  case Nil
  then show ?case by simp
next
  case (Cons x xs)
  obtain nb1 cnt1 where s: "scan_step st c x (nb, cnt) = (nb1, cnt1)"
    by (cases "scan_step st c x (nb, cnt)")
  with scan_step_cells[of st c x nb cnt] Cons.prems have "nb1 |\<inter>| mines st = {||}" by simp
  from Cons.IH[OF this, of cnt1] s show ?case by simp
qed

lemma add_knowledge_mine_free:
  assumes "mine_free st" and "add_knowledge c n st = Inr st'"
  shows "mine_free st'"
proof -
  define st1 where "st1 = mark_safe c (st\<lparr>moves_made := finsert c (moves_made st)\<rparr>)"
  define nb where "nb = fold (scan_step st1 c) (scan_cells c) ({||}, n)"
  define st2 where "st2 = st1\<lparr>knowledge := knowledge st1 @ [\<lparr>cells = fst nb, count = snd nb\<rparr>]\<rparr>"
  define st3 where "st3 = saturate st2"
  from assms(1) have "mine_free (st\<lparr>moves_made := finsert c (moves_made st)\<rparr>)"
    by (simp add: mine_free_def)
  from mine_free_mark_safe[OF this] have s1: "mine_free st1" by (simp add: st1_def)
  from scan_mine_free[of "{||}" st1 c "scan_cells c" n] have "fst nb |\<inter>| mines st1 = {||}"
    by (simp add: nb_def)
  with s1 have "mine_free st2" by (auto simp: st2_def mine_free_def)
  from saturate_mine_free[OF this] have s3: "mine_free st3" by (simp add: st3_def)
  from assms(2) obtain kb where
    ex: "expand_outer (knowledge st3) (fst c + 1) (snd c + 1) (int (length (knowledge st3))) = Inr kb"
    and st': "st' = saturate (st3\<lparr>knowledge := kb\<rparr>)"
    by (auto simp: add_knowledge_def Let_def st1_def nb_def st2_def st3_def split: sum.splits)
  from s3 have "\<forall>s\<in>set (knowledge st3). cells s |\<inter>| mines st3 = {||}" by (simp add: mine_free_def)
  from expand_outer_mine_free[OF ex this] have "mine_free (st3\<lparr>knowledge := kb\<rparr>)"
    by (simp add: mine_free_def)
  from saturate_mine_free[OF this] st' show ?thesis by simp
qed

lemma reached_mine_free: "reached h w st \<Longrightarrow> mine_free st"
proof (induction rule: reached.induct)
  case start
  show ?case by (simp add: mine_free_def init_def)
next
  case (add st c n st')
  from add_knowledge_mine_free[OF add.IH add.hyps(2)] show ?case .
next
  case (mine st c)
  then show ?case by (simp add: mine_free_mark_mine)
next
  case (safe st c)
  then show ?case by (simp add: mine_free_mark_safe)
qed

lemma reached_no_known_mine_in_sentence:
  "reached h w st \<Longrightarrow> s \<in> set (knowledge st) \<Longrightarrow> c |\<in>| mines st \<Longrightarrow>
   Sentence_mark_safe c s = s \<and> Sentence_mark_mine c s = s"
  using reached_mine_free[of h w st]
  by (auto simp: mine_free_def Sentence_mark_safe_def Sentence_mark_mine_def)

section \<open>Known mines in update_mines_and_safes_in_KB\<close>













text \<open>
  The two updates differ only on a state that has a known mine in a sentence, which
  the three methods never build (\<open>reached_no_known_mine_in_sentence\<close>): with \<open>(0, 0)\<close>
  put into \<open>mines\<close> and the sentence \<open>({(0,0), (0,1)}, 1)\<close> put into the knowledge base
  by hand, the source leaves \<open>({(0,1)}, 1)\<close> where \<open>Sentence.mark_mine\<close> gives
  \<open>({(0,1)}, 0)\<close>.
\<close>

lemma update_keeps_count_of_known_mine:
  "update_mines_and_safes_in_KB
     \<lparr>height = 1, width = 2, moves_made = {||}, mines = {|(0, 0)|}, safes = {||},
      knowledge = [\<lparr>cells = {|(0, 0), (0, 1)|}, count = 1\<rparr>]\<rparr> =
   (True, \<lparr>height = 1, width = 2, moves_made = {||}, mines = {|(0, 0)|}, safes = {||},
      knowledge = [\<lparr>cells = {|(0, 1)|}, count = 1\<rparr>]\<rparr>)
   \<and> Sentence_mark_mine (0, 0) \<lparr>cells = {|(0, 0), (0, 1)|}, count = 1\<rparr> =
       \<lparr>cells = {|(0, 1)|}, count = 0\<rparr>"
  by code_simp

section \<open>Truthful play keeps the state sound\<close>

lemma true_of_mark_safe: "true_of M s \<Longrightarrow> c |\<notin>| M \<Longrightarrow> true_of M (Sentence_mark_safe c s)"
proof -
  assume t: "true_of M s" and c: "c |\<notin>| M"
  from c have "(cells s |-| {|c|}) |\<inter>| M = cells s |\<inter>| M" by auto
  with t show ?thesis by (simp add: true_of_def Sentence_mark_safe_def)
qed

lemma true_of_mark_mine: "true_of M s \<Longrightarrow> c |\<in>| M \<Longrightarrow> true_of M (Sentence_mark_mine c s)"
proof (cases "c |\<in>| cells s")
  case False
  assume "true_of M s"
  with False show ?thesis by (simp add: Sentence_mark_mine_def)
next
  case True
  assume t: "true_of M s" and c: "c |\<in>| M"
  from c have eq: "(cells s |-| {|c|}) |\<inter>| M = (cells s |\<inter>| M) |-| {|c|}" by auto
  from True c have in': "c |\<in>| cells s |\<inter>| M" by simp
  then have "fcard (cells s |\<inter>| M) = Suc (fcard ((cells s |\<inter>| M) |-| {|c|}))"
    by (metis fcard_Suc_fminus1)
  with t True eq show ?thesis by (simp add: true_of_def Sentence_mark_mine_def)
qed


lemma kb_ok_map_mark_safe:
  "kb_ok M ms kb \<Longrightarrow> c |\<notin>| M \<Longrightarrow> kb_ok M ms (map (Sentence_mark_safe c) kb)"
  unfolding kb_ok_def by (auto simp: true_of_mark_safe cells_mark_safe)

lemma kb_ok_map_mark_mine:
  "kb_ok M ms kb \<Longrightarrow> c |\<in>| M \<Longrightarrow> kb_ok M (finsert c ms) (map (Sentence_mark_mine c) kb)"
  unfolding kb_ok_def by (auto simp: true_of_mark_mine cells_mark_mine)

lemma kb_ok_remove1: "kb_ok M ms kb \<Longrightarrow> kb_ok M ms (remove1 s kb)"
  unfolding kb_ok_def by (auto dest: notin_set_remove1)

lemma sound_mark_safe: "sound h w M st \<Longrightarrow> c |\<notin>| M \<Longrightarrow> sound h w M (mark_safe c st)"
  by (auto simp: sound_def mark_safe_def kb_ok_map_mark_safe)

lemma sound_mark_mine: "sound h w M st \<Longrightarrow> c |\<in>| M \<Longrightarrow> sound h w M (mark_mine c st)"
  by (auto simp: sound_def mark_mine_def kb_ok_map_mark_mine)

lemma sound_fold_mark_safe:
  "sound h w M st \<Longrightarrow> \<forall>c\<in>set cs. c |\<notin>| M \<Longrightarrow> sound h w M (fold mark_safe cs st)"
  by (induction cs arbitrary: st) (simp_all add: sound_mark_safe)

lemma sound_fold_mark_mine:
  "sound h w M st \<Longrightarrow> \<forall>c\<in>set cs. c |\<in>| M \<Longrightarrow> sound h w M (fold mark_mine cs st)"
  by (induction cs arbitrary: st) (simp_all add: sound_mark_mine)

lemma sound_remove1:
  "sound h w M st \<Longrightarrow> sound h w M (st\<lparr>knowledge := remove1 s (knowledge st)\<rparr>)"
  by (simp add: sound_def kb_ok_remove1)

lemma known_mines_true:
  assumes "true_of M s" and "c |\<in>| known_mines s"
  shows "c |\<in>| M"
proof -
  from assms(2) have full: "int (fcard (cells s)) = count s" and c: "c |\<in>| cells s"
    by (auto simp: known_mines_def split: if_splits)
  with assms(1) have "fcard (cells s |\<inter>| M) = fcard (cells s)" by (simp add: true_of_def)
  then have "cells s |\<inter>| M = cells s"
    by (metis finter_lower1 fcard_seteq order_refl)
  with c show ?thesis by auto
qed

lemma known_safes_true:
  assumes "true_of M s" and "c |\<in>| known_safes s"
  shows "c |\<notin>| M"
proof -
  from assms(2) have z: "count s = 0" and c: "c |\<in>| cells s"
    by (auto simp: known_safes_def split: if_splits)
  with assms(1) have "fcard (cells s |\<inter>| M) = 0" by (simp add: true_of_def)
  then have "cells s |\<inter>| M = {||}" by simp
  with c show ?thesis by auto
qed


lemma remove_loop_sound:
  "remove_loop snap k r st = (r', st') \<Longrightarrow> k + length snap = length (knowledge st) \<Longrightarrow>
   sound h w M st \<Longrightarrow> sound h w M st'"
proof (induction snap arbitrary: k r st)
  case Nil
  then show ?case by simp
next
  case (Cons x snap)
  let ?kb = "knowledge st"
  let ?s = "?kb ! k"
  from Cons.prems(2) have k: "k < length ?kb" by simp
  then have mem: "?s \<in> set ?kb" by simp
  with Cons.prems(3) have ts: "true_of M ?s" by (simp add: sound_def kb_ok_def)
  show ?case
  proof (cases "fcard (cells ?s) = 0")
    case True
    let ?st1 = "st\<lparr>knowledge := remove1 ?s ?kb\<rparr>"
    from Cons.prems(1) True have run: "remove_loop snap k True ?st1 = (r', st')" by simp
    from length_remove1_nth[OF k] Cons.prems(2)
    have len: "k + length snap = length (knowledge ?st1)" by simp
    from Cons.IH[OF run len sound_remove1[OF Cons.prems(3)]] show ?thesis .
  next
    case ne: False
    show ?thesis
    proof (cases "known_mines ?s \<noteq> {||}")
      case True
      define st1 where "st1 = fold mark_mine (sorted_list_of_fset (known_mines ?s)) st"
      let ?st2 = "st1\<lparr>knowledge := remove1 (knowledge st1 ! k) (knowledge st1)\<rparr>"
      from Cons.prems(1) ne True have run: "remove_loop snap k True ?st2 = (r', st')"
        by (simp add: st1_def Let_def)
      from knowledge_fold_mark_mine[of "sorted_list_of_fset (known_mines ?s)" st]
      have l1: "length (knowledge st1) = length ?kb" by (simp add: st1_def)
      from k l1 have k1: "k < length (knowledge st1)" by simp
      from length_remove1_nth[OF k1] l1 Cons.prems(2)
      have len: "k + length snap = length (knowledge ?st2)" by simp
      from known_mines_true[OF ts]
      have "\<forall>c\<in>set (sorted_list_of_fset (known_mines ?s)). c |\<in>| M" by simp
      from sound_fold_mark_mine[OF Cons.prems(3) this] have "sound h w M st1"
        by (simp add: st1_def)
      from Cons.IH[OF run len sound_remove1[OF this]] show ?thesis .
    next
      case nm: False
      show ?thesis
      proof (cases "known_safes ?s \<noteq> {||}")
        case True
        define st1 where "st1 = fold mark_safe (sorted_list_of_fset (known_safes ?s)) st"
        let ?st2 = "st1\<lparr>knowledge := remove1 (knowledge st1 ! k) (knowledge st1)\<rparr>"
        from Cons.prems(1) ne nm True have run: "remove_loop snap k True ?st2 = (r', st')"
          by (simp add: st1_def Let_def)
        from knowledge_fold_mark_safe[of "sorted_list_of_fset (known_safes ?s)" st]
        have l1: "length (knowledge st1) = length ?kb" by (simp add: st1_def)
        from k l1 have k1: "k < length (knowledge st1)" by simp
        from length_remove1_nth[OF k1] l1 Cons.prems(2)
        have len: "k + length snap = length (knowledge ?st2)" by simp
        from known_safes_true[OF ts]
        have "\<forall>c\<in>set (sorted_list_of_fset (known_safes ?s)). c |\<notin>| M" by simp
        from sound_fold_mark_safe[OF Cons.prems(3) this] have "sound h w M st1"
          by (simp add: st1_def)
        from Cons.IH[OF run len sound_remove1[OF this]] show ?thesis .
      next
        case False
        with Cons.prems(1) ne nm have run: "remove_loop snap (Suc k) r st = (r', st')"
          by (simp add: Let_def)
        from Cons.prems(2) have "Suc k + length snap = length ?kb" by simp
        from Cons.IH[OF run this Cons.prems(3)] show ?thesis .
      qed
    qed
  qed
qed

lemma remove_empties_sound:
  "remove_empties_and_safes_and_Mines st = (r, st') \<Longrightarrow> sound h w M st \<Longrightarrow> sound h w M st'"
  using remove_loop_sound[of "knowledge st" 0 False st r st' h w M]
  by (simp add: remove_empties_and_safes_and_Mines_def)

lemma kb_ok_sweep:
  assumes "kb_ok M ms kb" and "c |\<notin>| M \<or> c |\<in>| ms"
  shows "kb_ok M ms (map (Sentence_mark_safe c) kb)"
proof (cases "c |\<in>| ms")
  case True
  with assms(1) have "\<forall>s\<in>set kb. c |\<notin>| cells s" by (auto simp: kb_ok_def)
  then have "map (Sentence_mark_safe c) kb = kb" by (simp add: map_idI mark_safe_absent)
  with assms(1) show ?thesis by simp
next
  case False
  with assms show ?thesis by (simp add: kb_ok_map_mark_safe)
qed

lemma kb_ok_fold_sweep:
  "kb_ok M ms (snd acc) \<Longrightarrow> \<forall>c\<in>set cs. c |\<notin>| M \<or> c |\<in>| ms \<Longrightarrow>
   kb_ok M ms (snd (fold sweep_step cs acc))"
proof (induction cs arbitrary: acc)
  case Nil
  then show ?case by simp
next
  case (Cons c cs)
  have "snd (sweep_step c acc) = map (Sentence_mark_safe c) (snd acc)"
    by (simp add: sweep_step_def sweep_safe_eq)
  with Cons.prems have "kb_ok M ms (snd (sweep_step c acc))" by (simp add: kb_ok_sweep)
  with Cons.IH[of "sweep_step c acc"] Cons.prems(2) show ?case by simp
qed

lemma update_sound:
  assumes "update_mines_and_safes_in_KB st = (m, st')" and "sound h w M st"
  shows "sound h w M st'"
proof -
  let ?a1 = "fold sweep_step (sorted_list_of_fset (safes st)) (False, knowledge st)"
  let ?a2 = "fold sweep_step (sorted_list_of_fset (mines st)) ?a1"
  from assms(2) have ok: "kb_ok M (mines st) (knowledge st)"
    and sf: "\<forall>c\<in>set (sorted_list_of_fset (safes st)). c |\<notin>| M \<or> c |\<in>| mines st"
    by (auto simp: sound_def)
  from kb_ok_fold_sweep[of M "mines st" "(False, knowledge st)", OF _ sf] ok
  have "kb_ok M (mines st) (snd ?a1)" by simp
  from kb_ok_fold_sweep[OF this, of "sorted_list_of_fset (mines st)"]
  have "kb_ok M (mines st) (snd ?a2)" by simp
  moreover from assms(1) have "st' = st\<lparr>knowledge := snd ?a2\<rparr>"
    by (simp add: update_mines_and_safes_in_KB_def Let_def)
  ultimately show ?thesis using assms(2) by (simp add: sound_def)
qed

lemma saturate_sound: "sound h w M st \<Longrightarrow> sound h w M (saturate st)"
proof (induction st rule: saturate.induct)
  case (1 st)
  obtain r st1 where r: "remove_empties_and_safes_and_Mines st = (r, st1)"
    by (cases "remove_empties_and_safes_and_Mines st")
  from remove_empties_sound[OF r "1.prems"] have s1: "sound h w M st1" .
  show ?case
  proof (cases r)
    case True
    from True have "r = True" by simp
    from "1.IH"(1)[OF r[symmetric] this s1] r True show ?thesis
      by (simp add: saturate.simps[of st])
  next
    case False
    obtain m st2 where m: "update_mines_and_safes_in_KB st1 = (m, st2)"
      by (cases "update_mines_and_safes_in_KB st1")
    from update_sound[OF m s1] have s2: "sound h w M st2" .
    show ?thesis
    proof (cases m)
      case True
      from False True have "r = False" "m = True" by simp_all
      from "1.IH"(2)[OF r[symmetric] this(1) m[symmetric] this(2) s2] r m False True
      show ?thesis by (simp add: saturate.simps[of st])
    next
      case nm: False
      with False r m s2 show ?thesis by (simp add: saturate.simps[of st])
    qed
  qed
qed

lemma true_of_difference:
  assumes "true_of M a" and "true_of M b" and "cells b |\<subseteq>| cells a"
  shows "true_of M \<lparr>cells = cells a |-| cells b, count = count a - count b\<rparr>"
proof -
  from assms(3) have sub: "cells b |\<inter>| M |\<subseteq>| cells a |\<inter>| M" by auto
  have eq: "(cells a |-| cells b) |\<inter>| M = (cells a |\<inter>| M) |-| (cells b |\<inter>| M)" by auto
  from sub have "fcard ((cells a |\<inter>| M) |-| (cells b |\<inter>| M)) =
      fcard (cells a |\<inter>| M) - fcard (cells b |\<inter>| M)"
    by (simp add: fcard_funion_fsubset)
  moreover from sub have "fcard (cells b |\<inter>| M) \<le> fcard (cells a |\<inter>| M)"
    by (rule fcard_mono)
  ultimately show ?thesis using assms(1,2) eq by (simp add: true_of_def)
qed

lemma kb_ok_append_difference:
  assumes "kb_ok M ms kb" and "a \<in> set kb" and "b \<in> set kb" and "cells b |\<subset>| cells a"
  shows "kb_ok M ms (kb @ [\<lparr>cells = cells a |-| cells b, count = count a - count b\<rparr>])"
proof -
  from assms have ta: "true_of M a" and tb: "true_of M b" and ma: "cells a |\<inter>| ms = {||}"
    by (auto simp: kb_ok_def)
  from assms(4) have "cells b |\<subseteq>| cells a" by auto
  from true_of_difference[OF ta tb this] ma assms(1) show ?thesis
    by (auto simp: kb_ok_def)
qed

lemma expand_inner_ok:
  "expand_inner kb i j i_max j_max = Inr (kb', i', j', i_max') \<Longrightarrow> kb_ok M ms kb \<Longrightarrow>
   kb_ok M ms kb'"
proof (induction kb i j i_max j_max rule: expand_inner.induct)
  case (1 kb i j i_max j_max)
  note unf = expand_inner.simps[of kb i j i_max j_max]
  show ?case
  proof (cases "j < j_max")
    case False
    with "1.prems" unf show ?thesis by simp
  next
    case jlt: True
    show ?thesis
    proof (cases "i = j")
      case True
      with jlt "1.prems" unf "1.IH"(1) show ?thesis by simp
    next
      case ne: False
      from jlt ne "1.prems"(1) unf obtain si sj where
        gi: "getitem kb i = Inr si" and gj: "getitem kb j = Inr sj"
        by (auto split: sum.splits)
      show ?thesis
      proof (cases "si = sj")
        case True
        with jlt ne gi gj "1.prems"(1) unf
        have "expand_inner (remove1 sj kb) (if j < i then i - 1 else i) j (i_max - 1) (j_max - 1)
              = Inr (kb', i', j', i_max')" by simp
        from "1.IH"(2)[OF jlt ne gi gj True this kb_ok_remove1[OF "1.prems"(2)]]
        show ?thesis .
      next
        case neq: False
        show ?thesis
        proof (cases "cells sj |\<subset>| cells si")
          case True
          with jlt ne gi gj neq "1.prems"(1) unf
          have "expand_inner (kb @ [\<lparr>cells = cells si |-| cells sj, count = count si - count sj\<rparr>])
                  i (j + 1) i_max j_max = Inr (kb', i', j', i_max')" by simp
          from "1.IH"(3)[OF jlt ne gi gj neq True this
              kb_ok_append_difference[OF "1.prems"(2) getitem_mem[OF gi] getitem_mem[OF gj] True]]
          show ?thesis .
        next
          case False
          with jlt ne gi gj neq "1.prems"(1) unf
          have "expand_inner kb i (j + 1) i_max j_max = Inr (kb', i', j', i_max')" by simp
          from "1.IH"(4)[OF jlt ne gi gj neq False this "1.prems"(2)] show ?thesis .
        qed
      qed
    qed
  qed
qed

lemma expand_outer_ok:
  "expand_outer kb i j i_max = Inr kb' \<Longrightarrow> kb_ok M ms kb \<Longrightarrow> kb_ok M ms kb'"
proof (induction kb i j i_max rule: expand_outer.induct)
  case (1 kb i j i_max)
  note unf = expand_outer.simps[of kb i j i_max]
  show ?case
  proof (cases "i < i_max")
    case False
    with "1.prems" unf show ?thesis by simp
  next
    case True
    with "1.prems"(1) unf obtain kb1 i1 j1 m1 where
      inner: "expand_inner kb i j i_max (int (length kb)) = Inr (kb1, i1, j1, m1)"
      and outer: "expand_outer kb1 (i1 + 1) j1 m1 = Inr kb'"
      by (auto split: sum.splits)
    from "1.IH"[OF True inner refl refl refl outer expand_inner_ok[OF inner "1.prems"(2)]]
    show ?thesis .
  qed
qed

lemma py_range3: "py_range (x - 1) (x + 2) = [x - 1, x, x + 1]"
proof -
  have a: "[x - 1..x + 1] = (x - 1) # [x..x + 1]" using upto_rec1[of "x - 1" "x + 1"] by simp
  have b: "[x..x + 1] = x # [x + 1..x + 1]" using upto_rec1[of x "x + 1"] by simp
  have c: "x + 2 - 1 = x + 1" by simp
  show ?thesis unfolding py_range_def c a b by simp
qed

lemma scan_cells_eq:
  "scan_cells (a, b) =
     [(a - 1, b - 1), (a - 1, b), (a - 1, b + 1),
      (a, b - 1), (a, b), (a, b + 1),
      (a + 1, b - 1), (a + 1, b), (a + 1, b + 1)]"
  by (simp add: scan_cells_def py_range3)

lemma distinct_scan_cells: "distinct (scan_cells c)"
  by (cases c) (simp add: scan_cells_eq)

lemma scan_step_balance:
  assumes "mines st |\<subseteq>| M" and "moves_made st |\<inter>| M = {||}"
    and "height st = h" and "width st = w" and "x |\<notin>| nb"
  shows "snd (scan_step st c x (nb, cnt)) - int (fcard (fst (scan_step st c x (nb, cnt)) |\<inter>| M))
           + nearby_step h w M c x t
         = cnt - int (fcard (nb |\<inter>| M)) + t"
proof (cases "x = c \<or> \<not> (0 \<le> fst x \<and> fst x < h \<and> 0 \<le> snd x \<and> snd x < w)")
  case True
  with assms(3,4) show ?thesis by (auto simp: scan_step_def nearby_step_def)
next
  case inb: False
  show ?thesis
  proof (cases "x |\<in>| mines st")
    case True
    with assms(1) have "x |\<in>| M" by auto
    with True inb assms(3,4) show ?thesis by (auto simp: scan_step_def nearby_step_def)
  next
    case nomine: False
    show ?thesis
    proof (cases "x |\<in>| moves_made st")
      case True
      with assms(2) have "x |\<notin>| M" by auto
      with True nomine inb assms(3,4) show ?thesis by (auto simp: scan_step_def nearby_step_def)
    next
      case False
      show ?thesis
      proof (cases "x |\<in>| M")
        case True
        with assms(5) have "finsert x nb |\<inter>| M = finsert x (nb |\<inter>| M)" "x |\<notin>| nb |\<inter>| M"
          by auto
        then have "fcard (finsert x nb |\<inter>| M) = Suc (fcard (nb |\<inter>| M))"
          by (simp add: fcard_finsert_disjoint)
        with True False nomine inb assms(3,4) show ?thesis
          by (auto simp: scan_step_def nearby_step_def)
      next
        case notM: False
        then have "finsert x nb |\<inter>| M = nb |\<inter>| M" by auto
        with notM False nomine inb assms(3,4) show ?thesis
          by (auto simp: scan_step_def nearby_step_def)
      qed
    qed
  qed
qed

lemma scan_balance:
  assumes "mines st |\<subseteq>| M" and "moves_made st |\<inter>| M = {||}"
    and "height st = h" and "width st = w"
  shows "distinct xs \<Longrightarrow> \<forall>x\<in>set xs. x |\<notin>| nb \<Longrightarrow> nb |\<inter>| mines st = {||} \<Longrightarrow>
     snd (fold (scan_step st c) xs (nb, cnt))
         - int (fcard (fst (fold (scan_step st c) xs (nb, cnt)) |\<inter>| M))
         + fold (nearby_step h w M c) xs t
       = cnt - int (fcard (nb |\<inter>| M)) + t
     \<and> fst (fold (scan_step st c) xs (nb, cnt)) |\<inter>| mines st = {||}"
proof (induction xs arbitrary: nb cnt t)
  case Nil
  then show ?case by simp
next
  case (Cons x xs)
  obtain nb1 cnt1 where s: "scan_step st c x (nb, cnt) = (nb1, cnt1)"
    by (cases "scan_step st c x (nb, cnt)")
  from Cons.prems(2) have xnb: "x |\<notin>| nb" by simp
  from scan_step_balance[OF assms xnb, of c cnt t] s
  have bal: "cnt1 - int (fcard (nb1 |\<inter>| M)) + nearby_step h w M c x t
      = cnt - int (fcard (nb |\<inter>| M)) + t" by simp
  from scan_step_cells[of st c x nb cnt] s Cons.prems(3)
  have sub: "nb1 |\<subseteq>| finsert x nb" and nm: "nb1 |\<inter>| mines st = {||}" by simp_all
  from Cons.prems(1,2) sub have fresh: "\<forall>y\<in>set xs. y |\<notin>| nb1" by auto
  from Cons.prems(1) have d: "distinct xs" by simp
  from Cons.IH[OF d fresh nm, of cnt1 "nearby_step h w M c x t"] bal s
  show ?case by simp
qed

lemma new_sentence_true:
  assumes "mines st |\<subseteq>| M" and "moves_made st |\<inter>| M = {||}"
    and "height st = h" and "width st = w"
  shows "true_of M \<lparr>cells = fst (fold (scan_step st c) (scan_cells c) ({||}, nearby_mines h w M c)),
                    count = snd (fold (scan_step st c) (scan_cells c) ({||}, nearby_mines h w M c))\<rparr>
    \<and> fst (fold (scan_step st c) (scan_cells c) ({||}, nearby_mines h w M c)) |\<inter>| mines st = {||}"
  using scan_balance[OF assms distinct_scan_cells[of c], where nb = "{||}" and c = c
      and cnt = "nearby_mines h w M c" and t = 0]
  by (simp add: true_of_def nearby_mines_def fcard_fempty)

lemma add_knowledge_sound:
  assumes "sound h w M st" and "c |\<notin>| M"
    and "add_knowledge c (nearby_mines h w M c) st = Inr st'"
  shows "sound h w M st'"
proof -
  define st1 where "st1 = mark_safe c (st\<lparr>moves_made := finsert c (moves_made st)\<rparr>)"
  define nb where "nb = fold (scan_step st1 c) (scan_cells c) ({||}, nearby_mines h w M c)"
  define st2 where "st2 = st1\<lparr>knowledge := knowledge st1 @ [\<lparr>cells = fst nb, count = snd nb\<rparr>]\<rparr>"
  define st3 where "st3 = saturate st2"
  from assms(1,2) have "sound h w M (st\<lparr>moves_made := finsert c (moves_made st)\<rparr>)"
    by (auto simp: sound_def)
  from sound_mark_safe[OF this assms(2)] have s1: "sound h w M st1" by (simp add: st1_def)
  then have f: "mines st1 |\<subseteq>| M" "moves_made st1 |\<inter>| M = {||}" "height st1 = h" "width st1 = w"
    by (simp_all add: sound_def)
  from new_sentence_true[OF f, of c]
  have "true_of M \<lparr>cells = fst nb, count = snd nb\<rparr>" and "fst nb |\<inter>| mines st1 = {||}"
    by (simp_all add: nb_def)
  with s1 have "sound h w M st2" by (auto simp: st2_def sound_def kb_ok_def)
  from saturate_sound[OF this] have s3: "sound h w M st3" by (simp add: st3_def)
  from assms(3) obtain kb where
    ex: "expand_outer (knowledge st3) (fst c + 1) (snd c + 1) (int (length (knowledge st3))) = Inr kb"
    and st': "st' = saturate (st3\<lparr>knowledge := kb\<rparr>)"
    by (auto simp: add_knowledge_def Let_def st1_def nb_def st2_def st3_def split: sum.splits)
  from s3 have "kb_ok M (mines st3) (knowledge st3)" by (simp add: sound_def)
  from expand_outer_ok[OF ex this] s3 have "sound h w M (st3\<lparr>knowledge := kb\<rparr>)"
    by (simp add: sound_def)
  from saturate_sound[OF this] st' show ?thesis by simp
qed

lemma sound_init: "sound h w M (init h w)"
  by (simp add: sound_def init_def kb_ok_def)

lemma played_sound: "played h w M st \<Longrightarrow> sound h w M st"
proof (induction rule: played.induct)
  case new
  show ?case by (rule sound_init)
next
  case (observe st c st')
  from add_knowledge_sound[OF observe.IH observe.hyps(6,7)] show ?case .
next
  case (flag st c)
  then show ?case by (simp add: sound_mark_mine)
next
  case (clear st c)
  then show ?case by (simp add: sound_mark_safe)
qed

lemma true_of_bounds: "true_of M s \<Longrightarrow> 0 \<le> count s \<and> count s \<le> int (fcard (cells s))"
  by (simp add: true_of_def fcard_mono)

text \<open>
  C3, as amended. In every state the player reaches from a new player by
  \<open>add_knowledge\<close> calls that tell the truth about one board (the cell is on the board
  and is not a mine, the count is the number of mines next to it), and by \<open>mark_mine\<close>
  calls for mines and \<open>mark_safe\<close> calls for cells that are not mines, every sentence
  of the knowledge base has \<open>0 \<le> count \<le> |cells|\<close>.
\<close>

theorem count_invariant_of_truthful_play:
  "played h w M st \<Longrightarrow> \<forall>s\<in>set (knowledge st). 0 \<le> count s \<and> count s \<le> int (fcard (cells s))"
  using played_sound[of h w M st] by (auto simp: sound_def kb_ok_def dest: true_of_bounds)

text \<open>The theorem after one observation on the board of two rows and three columns
  with its mine at \<open>(1, 0)\<close>: the state is one of truthful play, and its sentence has
  five cells and the count 1.\<close>

theorem count_invariant_of_truthful_play_witness:
  "played 2 3 {|(1, 0)|}
     \<lparr>height = 2, width = 3, moves_made = {|(0, 1)|}, mines = {||}, safes = {|(0, 1)|},
      knowledge = [\<lparr>cells = {|(0, 0), (0, 2), (1, 0), (1, 1), (1, 2)|}, count = 1\<rparr>]\<rparr>
   \<and> 0 \<le> count \<lparr>cells = {|(0, 0), (0, 2), (1, 0), (1, 1), (1, 2)|}, count = 1\<rparr>
   \<and> count \<lparr>cells = {|(0, 0), (0, 2), (1, 0), (1, 1), (1, 2)|}, count = 1\<rparr>
       \<le> int (fcard (cells \<lparr>cells = {|(0, 0), (0, 2), (1, 0), (1, 1), (1, 2)|}, count = 1\<rparr>))"
proof -
  let ?S = "\<lparr>cells = {|(0, 0), (0, 2), (1, 0), (1, 1), (1, 2)|}, count = 1\<rparr>"
  let ?st = "\<lparr>height = 2, width = 3, moves_made = {|(0, 1)|}, mines = {||}, safes = {|(0, 1)|},
      knowledge = [?S]\<rparr>"
  have n: "nearby_mines 2 3 {|(1, 0)|} (0, 1) = 1" by code_simp
  have a: "add_knowledge (0, 1) 1 (init 2 3) = Inr ?st" by code_simp
  have p: "played 2 3 {|(1, 0)|} ?st"
    by (rule played.observe[OF played.new, of "(0, 1)"]) (simp_all add: n a)
  from count_invariant_of_truthful_play[OF p] have "0 \<le> count ?S \<and> count ?S \<le> int (fcard (cells ?S))" by simp
  with p show ?thesis by blast
qed

text \<open>The claim as it is written, for any sequence of \<open>add_knowledge\<close> calls, is
  false: the count is an argument, and \<open>add_knowledge((1, 1), 9)\<close> on a new player of
  the three by three board leaves a sentence of eight cells with the count 9.\<close>

theorem count_invariant_fails_on_untrue_count:
  "add_knowledge (1, 1) 9 (init 3 3) =
     Inr \<lparr>height = 3, width = 3, moves_made = {|(1, 1)|}, mines = {||}, safes = {|(1, 1)|},
          knowledge = [\<lparr>cells = {|(0, 0), (0, 1), (0, 2), (1, 0), (1, 2), (2, 0), (2, 1), (2, 2)|},
                         count = 9\<rparr>]\<rparr>
   \<and> \<not> count \<lparr>cells = {|(0, 0), (0, 1), (0, 2), (1, 0), (1, 2), (2, 0), (2, 1), (2, 2)|}, count = 9\<rparr>
         \<le> int (fcard (cells \<lparr>cells = {|(0, 0), (0, 1), (0, 2), (1, 0), (1, 2), (2, 0), (2, 1), (2, 2)|},
                                 count = 9\<rparr>))"
  by code_simp

text \<open>
  C4, as amended. In every state the player reaches from a new player by
  \<open>add_knowledge\<close> calls that tell the truth about one board, by \<open>mark_mine\<close> calls for
  mines of that board and by \<open>mark_safe\<close> calls for cells that are not mines, the sets
  \<open>mines\<close> and \<open>safes\<close> are disjoint.
\<close>

theorem mines_safes_disjoint_in_truthful_play:
  "played h w M st \<Longrightarrow> mines st |\<inter>| safes st = {||}"
  using played_sound[of h w M st] by (auto simp: sound_def)

text \<open>The theorem on the same board, after \<open>mark_mine((1, 0))\<close> and the observation
  \<open>add_knowledge((0, 0), 1)\<close>: one known mine, three safe cells.\<close>

theorem mines_safes_disjoint_in_truthful_play_witness:
  "played 2 3 {|(1, 0)|}
     \<lparr>height = 2, width = 3, moves_made = {|(0, 0)|}, mines = {|(1, 0)|},
      safes = {|(0, 0), (0, 1), (1, 1)|}, knowledge = []\<rparr>
   \<and> mines \<lparr>height = 2, width = 3, moves_made = {|(0, 0)|}, mines = {|(1, 0)|},
      safes = {|(0, 0), (0, 1), (1, 1)|}, knowledge = []\<rparr>
     |\<inter>| safes \<lparr>height = 2, width = 3, moves_made = {|(0, 0)|}, mines = {|(1, 0)|},
      safes = {|(0, 0), (0, 1), (1, 1)|}, knowledge = []\<rparr> = {||}"
proof -
  let ?st = "\<lparr>height = 2, width = 3, moves_made = {|(0, 0)|}, mines = {|(1, 0)|},
      safes = {|(0, 0), (0, 1), (1, 1)|}, knowledge = []\<rparr>"
  have n: "nearby_mines 2 3 {|(1, 0)|} (0, 0) = 1" by code_simp
  have a: "add_knowledge (0, 0) 1 (mark_mine (1, 0) (init 2 3)) = Inr ?st" by code_simp
  have f: "played 2 3 {|(1, 0)|} (mark_mine (1, 0) (init 2 3))"
    by (rule played.flag[OF played.new]) simp
  have p: "played 2 3 {|(1, 0)|} ?st"
    by (rule played.observe[OF f, of "(0, 0)"]) (simp_all add: n a)
  from mines_safes_disjoint_in_truthful_play[OF p] p show ?thesis by blast
qed

text \<open>The claim as it is written, for any sequence of calls, is false: the two
  methods check nothing, and \<open>mark_mine((0, 0))\<close> followed by \<open>mark_safe((0, 0))\<close>
  leaves \<open>(0, 0)\<close> in both sets.\<close>

theorem contradictory_marks_overlap:
  "mines (mark_safe (0, 0) (mark_mine (0, 0) (init 1 1)))
     |\<inter>| safes (mark_safe (0, 0) (mark_mine (0, 0) (init 1 1))) = {|(0, 0)|}"
  by code_simp

section \<open>No count is ever reported\<close>

text \<open>The expansion reads the list only in range when it starts from indices that
  are not negative, as it does for a cell with coordinates that are not negative.\<close>

lemma getitem_nth: "0 \<le> i \<Longrightarrow> i < int (length xs) \<Longrightarrow> getitem xs i = Inr (xs ! nat i)"
  by (simp add: getitem_def Let_def)

lemma length_remove1_int:
  "x \<in> set xs \<Longrightarrow> int (length (remove1 x xs)) = int (length xs) - 1"
proof -
  assume m: "x \<in> set xs"
  then have "int (length xs - 1) = int (length xs) - 1" by (cases xs) simp_all
  with m show ?thesis by (simp add: length_remove1)
qed

lemma expand_inner_returns:
  "0 \<le> i \<Longrightarrow> 0 \<le> j \<Longrightarrow> i < int (length kb) \<Longrightarrow> i_max \<le> int (length kb) \<Longrightarrow>
   j_max \<le> int (length kb) \<Longrightarrow>
   \<exists>kb' i' j' m'. expand_inner kb i j i_max j_max = Inr (kb', i', j', m')
      \<and> 0 \<le> i' \<and> 0 \<le> j' \<and> m' \<le> int (length kb')"
proof (induction kb i j i_max j_max rule: expand_inner.induct)
  case (1 kb i j i_max j_max)
  note unf = expand_inner.simps[of kb i j i_max j_max]
  show ?case
  proof (cases "j < j_max")
    case False
    with "1.prems" unf show ?thesis by simp
  next
    case jlt: True
    show ?thesis
    proof (cases "i = j")
      case True
      from "1.IH"(1)[OF jlt True] "1.prems" jlt True unf show ?thesis by simp
    next
      case ne: False
      from jlt "1.prems" have jlen: "j < int (length kb)" by simp
      let ?si = "kb ! nat i" and ?sj = "kb ! nat j"
      from "1.prems" have gi: "getitem kb i = Inr ?si" by (simp add: getitem_nth)
      from "1.prems" jlen have gj: "getitem kb j = Inr ?sj" by (simp add: getitem_nth)
      show ?thesis
      proof (cases "?si = ?sj")
        case True
        from "1.prems"(2) jlen have "nat j < length kb" by linarith
        then have "?sj \<in> set kb" by (rule nth_mem)
        from length_remove1_int[OF this]
        have len: "int (length (remove1 ?sj kb)) = int (length kb) - 1" .
        from "1.prems" ne jlen len
        have pre: "0 \<le> (if j < i then i - 1 else i)" "0 \<le> j"
          "(if j < i then i - 1 else i) < int (length (remove1 ?sj kb))"
          "i_max - 1 \<le> int (length (remove1 ?sj kb))"
          "j_max - 1 \<le> int (length (remove1 ?sj kb))"
          by auto
        from "1.IH"(2)[OF jlt ne gi gj True pre] jlt ne gi gj True unf show ?thesis by simp
      next
        case neq: False
        show ?thesis
        proof (cases "cells ?sj |\<subset>| cells ?si")
          case True
          let ?kb1 = "kb @ [\<lparr>cells = cells ?si |-| cells ?sj, count = count ?si - count ?sj\<rparr>]"
          from "1.prems"
          have pre: "0 \<le> i" "0 \<le> j + 1" "i < int (length ?kb1)" "i_max \<le> int (length ?kb1)"
            "j_max \<le> int (length ?kb1)" by auto
          from "1.IH"(3)[OF jlt ne gi gj neq True pre] jlt ne gi gj neq True unf
          show ?thesis by simp
        next
          case False
          from "1.prems" have pre: "0 \<le> i" "0 \<le> j + 1" by auto
          from "1.IH"(4)[OF jlt ne gi gj neq False pre "1.prems"(3,4,5)] jlt ne gi gj neq False unf
          show ?thesis by simp
        qed
      qed
    qed
  qed
qed

lemma expand_outer_returns:
  "0 \<le> i \<Longrightarrow> 0 \<le> j \<Longrightarrow> i_max \<le> int (length kb) \<Longrightarrow>
   \<exists>kb'. expand_outer kb i j i_max = Inr kb'"
proof (induction kb i j i_max rule: expand_outer.induct)
  case (1 kb i j i_max)
  note unf = expand_outer.simps[of kb i j i_max]
  show ?case
  proof (cases "i < i_max")
    case False
    with unf show ?thesis by simp
  next
    case True
    with "1.prems" have "i < int (length kb)" by simp
    from expand_inner_returns[OF "1.prems"(1,2) this "1.prems"(3), of "int (length kb)"]
    obtain kb1 i1 j1 m1 where
      inner: "expand_inner kb i j i_max (int (length kb)) = Inr (kb1, i1, j1, m1)"
      and b: "0 \<le> i1" "0 \<le> j1" "m1 \<le> int (length kb1)" by auto
    from b(1) have "0 \<le> i1 + 1" by simp
    from "1.IH"[OF True inner refl refl refl this b(2,3)] True inner unf
    show ?thesis by simp
  qed
qed

text \<open>
  C6, as amended. The code has no check of a count: a sentence whose count is
  negative or larger than the number of its cells is never reported. For every state of
  the player, every count and every cell with coordinates that are not negative,
  \<open>add_knowledge\<close> returns normally. (Its only error is the \<open>IndexError\<close> of the
  expansion loop, which needs a negative coordinate.)
\<close>

theorem add_knowledge_returns:
  "0 \<le> fst c \<Longrightarrow> 0 \<le> snd c \<Longrightarrow> \<exists>st'. add_knowledge c n st = Inr st'"
proof -
  assume c: "0 \<le> fst c" "0 \<le> snd c"
  define st3 where "st3 = saturate
    ((mark_safe c (st\<lparr>moves_made := finsert c (moves_made st)\<rparr>))
      \<lparr>knowledge := knowledge (mark_safe c (st\<lparr>moves_made := finsert c (moves_made st)\<rparr>)) @
         [\<lparr>cells = fst (fold (scan_step (mark_safe c (st\<lparr>moves_made := finsert c (moves_made st)\<rparr>)) c)
                           (scan_cells c) ({||}, n)),
           count = snd (fold (scan_step (mark_safe c (st\<lparr>moves_made := finsert c (moves_made st)\<rparr>)) c)
                           (scan_cells c) ({||}, n))\<rparr>]\<rparr>)"
  from c have "0 \<le> fst c + 1" "0 \<le> snd c + 1" by simp_all
  from expand_outer_returns[OF this, of "int (length (knowledge st3))" "knowledge st3"]
  obtain kb where "expand_outer (knowledge st3) (fst c + 1) (snd c + 1) (int (length (knowledge st3))) = Inr kb"
    by auto
  then show ?thesis by (simp add: add_knowledge_def Let_def st3_def)
qed

text \<open>The theorem at the call of the counterexample below.\<close>

theorem add_knowledge_returns_witness:
  "0 \<le> fst ((0, 0) :: cell) \<and> 0 \<le> snd ((0, 0) :: cell)
   \<and> (\<exists>st'. add_knowledge (0, 0) 2
       \<lparr>height = 2, width = 3, moves_made = {|(0, 1)|}, mines = {||}, safes = {|(0, 1)|},
        knowledge = [\<lparr>cells = {|(0, 0), (0, 2), (1, 0), (1, 1), (1, 2)|}, count = 1\<rparr>]\<rparr> = Inr st')"
proof -
  have c: "0 \<le> fst ((0, 0) :: cell)" "0 \<le> snd ((0, 0) :: cell)" by simp_all
  from add_knowledge_returns[OF c] c show ?thesis by blast
qed

text \<open>The claim as it is written is false. After \<open>add_knowledge((0, 1), 1)\<close> on the
  board of two rows and three columns, \<open>add_knowledge((0, 0), 2)\<close> makes saturation
  mark \<open>(1, 0)\<close> and \<open>(1, 1)\<close> as mines, which takes the count of the first sentence
  from 1 to -1; the call returns normally and the sentence \<open>({(0,2), (1,2)}, -1)\<close>
  stays in the knowledge base.\<close>

theorem negative_count_is_not_reported:
  "add_knowledge (0, 0) 2
       \<lparr>height = 2, width = 3, moves_made = {|(0, 1)|}, mines = {||}, safes = {|(0, 1)|},
        knowledge = [\<lparr>cells = {|(0, 0), (0, 2), (1, 0), (1, 1), (1, 2)|}, count = 1\<rparr>]\<rparr> =
     Inr \<lparr>height = 2, width = 3, moves_made = {|(0, 0), (0, 1)|}, mines = {|(1, 0), (1, 1)|},
          safes = {|(0, 0), (0, 1)|},
          knowledge = [\<lparr>cells = {|(0, 2), (1, 2)|}, count = - 1\<rparr>]\<rparr>"
  by code_simp

end
